theory Spec2Isabelle
  imports Main "HOL-Library.AList" "HOL-Library.FSet"
begin

section \<open>The Basic IR\<close>

text \<open>
  Expressions of the Basic IR as the frontend builds them: identifiers, literals, unary
  and binary operations. Every node carries its data bag; the only entry of the bag that
  the tools read is \<open>type_hint\<close>, which may be absent (\<open>None\<close>). An operator is
  represented by its symbol.
\<close>

datatype lit_val = IntVal int | StrVal string

datatype 'h expr =
    Identifier string "'h option"
  | Lit lit_val "'h option"
  | UnExpr string "'h expr" "'h option"
  | BinExpr "'h expr" string "'h expr" "'h option"

datatype py_error = KeyError | AttributeError | TypeError | NotImplementedError | ValueError

section \<open>Model entries\<close>

text \<open>
  \<open>Models\<close> attaches a \<open>Bunch\<close> to every typed node: operations get
  \<open>domain\<close>, \<open>definition\<close> and \<open>inverse\<close>, identifiers only \<open>domain\<close>,
  literals \<open>domain\<close> and \<open>builder\<close>. Reading an attribute that a bunch does not
  have raises \<open>AttributeError\<close>.
\<close>

datatype ('dom, 'def, 'inv, 'bld) bunch =
    OpBunch 'dom 'def 'inv
  | IdentBunch 'dom
  | LitBunch 'dom 'bld

fun bunch_domain :: "('dom, 'def, 'inv, 'bld) bunch \<Rightarrow> 'dom" where
  "bunch_domain (OpBunch d f i) = d"
| "bunch_domain (IdentBunch d) = d"
| "bunch_domain (LitBunch d b) = d"

fun bunch_definition :: "('dom, 'def, 'inv, 'bld) bunch \<Rightarrow> py_error + 'def" where
  "bunch_definition (OpBunch d f i) = Inr f"
| "bunch_definition (IdentBunch d) = Inl AttributeError"
| "bunch_definition (LitBunch d b) = Inl AttributeError"

fun bunch_inverse :: "('dom, 'def, 'inv, 'bld) bunch \<Rightarrow> py_error + 'inv" where
  "bunch_inverse (OpBunch d f i) = Inr i"
| "bunch_inverse (IdentBunch d) = Inl AttributeError"
| "bunch_inverse (LitBunch d b) = Inl AttributeError"

fun bunch_builder :: "('dom, 'def, 'inv, 'bld) bunch \<Rightarrow> py_error + 'bld" where
  "bunch_builder (OpBunch d f i) = Inl AttributeError"
| "bunch_builder (IdentBunch d) = Inl AttributeError"
| "bunch_builder (LitBunch d b) = Inr b"

section \<open>Abstract domains and operation semantics\<close>

text \<open>
  A domain object offers \<open>meet\<close> and \<open>is_empty\<close> to the solver. Forward and inverse
  semantics are Python callables of one or two operands; calling one with the wrong
  number of arguments raises \<open>TypeError\<close>. An inverse returns \<open>None\<close> when it finds
  no solution.
\<close>

record 'v domain =
  meet :: "'v \<Rightarrow> 'v \<Rightarrow> 'v"
  is_empty :: "'v \<Rightarrow> bool"

datatype 'v defn = Def1 "'v \<Rightarrow> 'v" | Def2 "'v \<Rightarrow> 'v \<Rightarrow> 'v"

datatype 'v invn =
    Inv1 "'v \<Rightarrow> 'v \<Rightarrow> 'v option"
  | Inv2 "'v \<Rightarrow> 'v \<Rightarrow> 'v \<Rightarrow> ('v \<times> 'v) option"

type_synonym ('h, 'v) env = "'h expr \<rightharpoonup> 'v"

type_synonym ('h, 'v) model =
  "'h expr \<rightharpoonup> ('v domain, 'v defn, 'v invn, lit_val \<Rightarrow> 'v) bunch"

section \<open>ExprEvaluator\<close>

fun eval :: "('h, 'v) model \<Rightarrow> 'h expr \<Rightarrow> ('h, 'v) env \<Rightarrow> py_error + 'v" where
  "eval m (Identifier x h) env =
     (case env (Identifier x h) of None \<Rightarrow> Inl KeyError | Some v \<Rightarrow> Inr v)"
| "eval m (BinExpr l op r h) env =
     (case eval m l env of Inl e \<Rightarrow> Inl e | Inr lhs \<Rightarrow>
      (case eval m r env of Inl e \<Rightarrow> Inl e | Inr rhs \<Rightarrow>
       (case m (BinExpr l op r h) of None \<Rightarrow> Inl KeyError | Some b \<Rightarrow>
        (case bunch_definition b of Inl e \<Rightarrow> Inl e
         | Inr (Def1 f) \<Rightarrow> Inl TypeError
         | Inr (Def2 f) \<Rightarrow> Inr (f lhs rhs)))))"
| "eval m (UnExpr op x h) env =
     (case eval m x env of Inl e \<Rightarrow> Inl e | Inr v \<Rightarrow>
      (case m (UnExpr op x h) of None \<Rightarrow> Inl KeyError | Some b \<Rightarrow>
       (case bunch_definition b of Inl e \<Rightarrow> Inl e
        | Inr (Def1 f) \<Rightarrow> Inr (f v)
        | Inr (Def2 f) \<Rightarrow> Inl TypeError)))"
| "eval m (Lit val h) env =
     (case m (Lit val h) of None \<Rightarrow> Inl KeyError | Some b \<Rightarrow>
      (case bunch_builder b of Inl e \<Rightarrow> Inl e | Inr build \<Rightarrow> Inr (build val)))"

section \<open>ExprSolver\<close>

text \<open>
  The solver updates an environment dictionary in place, and \<open>solve\<close> hands it a copy of
  the caller's dictionary. Dictionaries therefore live in a store, addressed by
  reference; \<open>next_addr\<close> is the first reference not yet in use.
\<close>

record ('h, 'v) store =
  cells :: "nat \<Rightarrow> ('h, 'v) env"
  next_addr :: nat

definition alloc :: "('h, 'v) env \<Rightarrow> ('h, 'v) store \<Rightarrow> nat \<times> ('h, 'v) store" where
  "alloc d s = (next_addr s, s\<lparr>cells := (cells s)(next_addr s := d), next_addr := Suc (next_addr s)\<rparr>)"

definition setitem :: "nat \<Rightarrow> 'h expr \<Rightarrow> 'v \<Rightarrow> ('h, 'v) store \<Rightarrow> ('h, 'v) store" where
  "setitem a k v s = s\<lparr>cells := (cells s)(a := (cells s a)(k \<mapsto> v))\<rparr>"

fun visit :: "('h, 'v) model \<Rightarrow> 'h expr \<Rightarrow> nat \<Rightarrow> 'v \<Rightarrow> ('h, 'v) store
    \<Rightarrow> (py_error + bool) \<times> ('h, 'v) store" where
  "visit m (Identifier x h) env expected s =
     (case m (Identifier x h) of None \<Rightarrow> (Inl KeyError, s) | Some b \<Rightarrow>
      (case cells s env (Identifier x h) of None \<Rightarrow> (Inl KeyError, s) | Some v \<Rightarrow>
       (Inr True, setitem env (Identifier x h) (meet (bunch_domain b) v expected) s)))"
| "visit m (BinExpr l op r h) env expected s =
     (case eval m l (cells s env) of Inl e \<Rightarrow> (Inl e, s) | Inr lhs_val \<Rightarrow>
      (case eval m r (cells s env) of Inl e \<Rightarrow> (Inl e, s) | Inr rhs_val \<Rightarrow>
       (case m (BinExpr l op r h) of None \<Rightarrow> (Inl KeyError, s) | Some b \<Rightarrow>
        (case bunch_inverse b of Inl e \<Rightarrow> (Inl e, s)
         | Inr (Inv1 f) \<Rightarrow> (Inl TypeError, s)
         | Inr (Inv2 f) \<Rightarrow>
           (case f expected lhs_val rhs_val of None \<Rightarrow> (Inr False, s)
            | Some (expected_lhs, expected_rhs) \<Rightarrow>
              (case visit m l env expected_lhs s of
                 (Inr True, s1) \<Rightarrow> visit m r env expected_rhs s1
               | (Inr False, s1) \<Rightarrow> (Inr False, s1)
               | (Inl e, s1) \<Rightarrow> (Inl e, s1)))))))"
| "visit m (UnExpr op x h) env expected s =
     (case eval m x (cells s env) of Inl e \<Rightarrow> (Inl e, s) | Inr expr_val \<Rightarrow>
      (case m (UnExpr op x h) of None \<Rightarrow> (Inl KeyError, s) | Some b \<Rightarrow>
       (case bunch_inverse b of Inl e \<Rightarrow> (Inl e, s)
        | Inr (Inv2 f) \<Rightarrow> (Inl TypeError, s)
        | Inr (Inv1 f) \<Rightarrow>
          (case f expected expr_val of None \<Rightarrow> (Inr False, s)
           | Some expected_expr \<Rightarrow> visit m x env expected_expr s))))"
| "visit m (Lit val h) env expected s =
     (case m (Lit val h) of None \<Rightarrow> (Inl KeyError, s) | Some b \<Rightarrow>
      (case eval m (Lit val h) (cells s env) of Inl e \<Rightarrow> (Inl e, s) | Inr lit_val \<Rightarrow>
       (Inr (\<not> is_empty (bunch_domain b) (meet (bunch_domain b) expected lit_val)), s)))"

text \<open>
  \<open>solve\<close> copies the caller's dictionary, runs the visitor on the copy with the
  expected value \<open>boolean_ops.true\<close> (a constant of the domain library, here the
  parameter \<open>true\<close>), and returns a fresh empty dictionary when the visitor answers
  \<open>False\<close>.
\<close>

definition solve :: "('h, 'v) model \<Rightarrow> 'v \<Rightarrow> 'h expr \<Rightarrow> nat \<Rightarrow> ('h, 'v) store
    \<Rightarrow> (py_error + nat) \<times> ('h, 'v) store" where
  "solve m true expr env s =
     (case alloc (cells s env) s of (new_env, s0) \<Rightarrow>
      (case visit m expr new_env true s0 of
         (Inl e, s1) \<Rightarrow> (Inl e, s1)
       | (Inr False, s1) \<Rightarrow> (case alloc Map.empty s1 of (r, s2) \<Rightarrow> (Inr r, s2))
       | (Inr True, s1) \<Rightarrow> (Inr new_env, s1)))"

section \<open>Statements and programs\<close>

text \<open>
  The statements the CFG builder has a visit method for. A split statement holds the two
  statement lists of its branches and a loop statement the statement list of its body; a
  program is its statement list.
\<close>

datatype 'h stmt =
    AssignStmt "'h expr" "'h expr"
  | ReadStmt "'h expr"
  | UseStmt "'h expr"
  | AssumeStmt "'h expr"
  | SplitStmt "'h stmt list" "'h stmt list"
  | LoopStmt "'h stmt list"

datatype 'h program = Program (stmts: "'h stmt list")

section \<open>CFGBuilder\<close>

text \<open>
  A node of the control-flow graph carries its name and its data: \<open>is_widening_point\<close>
  and \<open>node\<close>, the IR statement it was built from, if any. The name
  \<open>"{}{}".format(name, n)\<close> is kept as the pair of its two parts. An edge is the pair
  of its end points, and a \<open>Digraph\<close> is built from a node list and an edge list.
\<close>

record 'h cfg_node =
  name :: "string \<times> nat"
  is_widening_point :: bool
  node :: "'h stmt option"

type_synonym 'h cfg_edge = "'h cfg_node \<times> 'h cfg_node"

datatype 'h digraph = Digraph (graph_nodes: "'h cfg_node list") (graph_edges: "'h cfg_edge list")

text \<open>
  The state of a builder: the nodes and edges registered so far and the key counter,
  which holds a count for every key. (The attribute \<open>start_node\<close> is set to
  \<open>None\<close> by the constructor and never touched again.)
\<close>

record 'h cfg_builder =
  nodes :: "'h cfg_node list"
  edges :: "'h cfg_edge list"
  key_counter :: "string \<Rightarrow> nat"

text \<open>
  Modelled from the spec: \<open>KeyCounter\<close> (\<open>lalcheck.utils\<close>) is not among the
  sources. The spec calls the names it yields freshly generated; \<open>get_incr\<close> is taken
  to return how often the key was asked for before, and to count the new request.
\<close>

definition get_incr :: "string \<Rightarrow> (string \<Rightarrow> nat) \<Rightarrow> nat \<times> (string \<Rightarrow> nat)" where
  "get_incr k c = (c k, c(k := Suc (c k)))"

definition fresh :: "string \<Rightarrow> 'h cfg_builder \<Rightarrow> (string \<times> nat) \<times> 'h cfg_builder" where
  "fresh nm b =
     (case get_incr nm (key_counter b) of (n, c) \<Rightarrow> ((nm, n), b\<lparr>key_counter := c\<rparr>))"

definition build_node :: "string \<Rightarrow> bool \<Rightarrow> 'h stmt option \<Rightarrow> 'h cfg_builder
    \<Rightarrow> 'h cfg_node \<times> 'h cfg_builder" where
  "build_node nm wp orig_node b =
     (case fresh nm b of (n, b') \<Rightarrow>
        (\<lparr>name = n, is_widening_point = wp, node = orig_node\<rparr>, b'))"

definition register_and_link :: "'h cfg_node list \<Rightarrow> 'h cfg_node \<Rightarrow> 'h cfg_builder
    \<Rightarrow> 'h cfg_builder" where
  "register_and_link froms new_node b =
     b\<lparr>nodes := nodes b @ [new_node], edges := edges b @ map (\<lambda>f. (f, new_node)) froms\<rparr>"

text \<open>
  \<open>visit_stmt s start b\<close> is \<open>s.visit(self, start)\<close> in the builder state \<open>b\<close>: it
  dispatches on the kind of the statement and returns the node the lowering ends in,
  with the new state.
\<close>

fun visit_stmt :: "'h stmt \<Rightarrow> 'h cfg_node \<Rightarrow> 'h cfg_builder \<Rightarrow> 'h cfg_node \<times> 'h cfg_builder"
  and visit_stmts :: "'h stmt list \<Rightarrow> 'h cfg_node \<Rightarrow> 'h cfg_builder \<Rightarrow> 'h cfg_node \<times> 'h cfg_builder"
  where
  "visit_stmt (SplitStmt fst_stmts snd_stmts) start b =
     (case visit_stmts fst_stmts start b of (end_fst, b1) \<Rightarrow>
      (case visit_stmts snd_stmts start b1 of (end_snd, b2) \<Rightarrow>
       (case build_node ''split_join'' False None b2 of (join, b3) \<Rightarrow>
          (join, register_and_link [end_fst, end_snd] join b3))))"
| "visit_stmt (LoopStmt body) start b =
     (case build_node ''loop_start'' True None b of (loop_start, b1) \<Rightarrow>
      (case visit_stmts body loop_start b1 of (end, b2) \<Rightarrow>
       (case build_node ''loop_join'' False None b2 of (join, b3) \<Rightarrow>
          (join, register_and_link [loop_start] join
                   (register_and_link [start, end] loop_start b3)))))"
| "visit_stmt (AssignStmt i e) start b =
     (case build_node ''assign'' False (Some (AssignStmt i e)) b of (n, b1) \<Rightarrow>
        (n, register_and_link [start] n b1))"
| "visit_stmt (ReadStmt i) start b =
     (case build_node ''read'' False (Some (ReadStmt i)) b of (n, b1) \<Rightarrow>
        (n, register_and_link [start] n b1))"
| "visit_stmt (UseStmt i) start b =
     (case build_node ''use'' False (Some (UseStmt i)) b of (n, b1) \<Rightarrow>
        (n, register_and_link [start] n b1))"
| "visit_stmt (AssumeStmt e) start b =
     (case build_node ''assume'' False (Some (AssumeStmt e)) b of (n, b1) \<Rightarrow>
        (n, register_and_link [start] n b1))"
| "visit_stmts [] cur b = (cur, b)"
| "visit_stmts (s # ss) cur b =
     (case visit_stmt s cur b of (cur', b') \<Rightarrow> visit_stmts ss cur' b')"

text \<open>
  \<open>visit_program\<close> empties the node and edge lists and builds the start node
  (\<open>start_of\<close>), lowers the statements from it, and returns the graph of the
  registered nodes, the start node last, and the registered edges.
\<close>

definition start_of :: "'h cfg_builder \<Rightarrow> 'h cfg_node \<times> 'h cfg_builder" where
  "start_of b = build_node ''start'' False None (b\<lparr>nodes := [], edges := []\<rparr>)"

definition visit_program :: "'h program \<Rightarrow> 'h cfg_builder \<Rightarrow> 'h digraph" where
  "visit_program prgm b =
     (case start_of b of (start, b0) \<Rightarrow>
      (case visit_stmts (stmts prgm) start b0 of (cur, b1) \<Rightarrow>
         Digraph (nodes b1 @ [start]) (edges b1)))"

text \<open>
  The visits made while a statement list is lowered, in the order they are made: for each
  call \<open>stmt.visit(self, cur)\<close>, nested ones included, the statement, the node \<open>cur\<close>
  it starts from and the builder state on entry.
\<close>

fun visits_stmt :: "'h stmt \<Rightarrow> 'h cfg_node \<Rightarrow> 'h cfg_builder
      \<Rightarrow> ('h stmt \<times> 'h cfg_node \<times> 'h cfg_builder) list"
  and visits_stmts :: "'h stmt list \<Rightarrow> 'h cfg_node \<Rightarrow> 'h cfg_builder
      \<Rightarrow> ('h stmt \<times> 'h cfg_node \<times> 'h cfg_builder) list"
  where
  "visits_stmt (SplitStmt fst_stmts snd_stmts) start b =
     (SplitStmt fst_stmts snd_stmts, start, b) #
       visits_stmts fst_stmts start b @
       visits_stmts snd_stmts start (snd (visit_stmts fst_stmts start b))"
| "visits_stmt (LoopStmt body) start b =
     (LoopStmt body, start, b) #
       visits_stmts body (fst (build_node ''loop_start'' True None b))
         (snd (build_node ''loop_start'' True None b))"
| "visits_stmt (AssignStmt i e) start b = [(AssignStmt i e, start, b)]"
| "visits_stmt (ReadStmt i) start b = [(ReadStmt i, start, b)]"
| "visits_stmt (UseStmt i) start b = [(UseStmt i, start, b)]"
| "visits_stmt (AssumeStmt e) start b = [(AssumeStmt e, start, b)]"
| "visits_stmts [] cur b = []"
| "visits_stmts (s # ss) cur b =
     visits_stmt s cur b @
       visits_stmts ss (fst (visit_stmt s cur b)) (snd (visit_stmt s cur b))"

definition visits_program :: "'h program \<Rightarrow> 'h cfg_builder
    \<Rightarrow> ('h stmt \<times> 'h cfg_node \<times> 'h cfg_builder) list" where
  "visits_program prgm b = visits_stmts (stmts prgm) (fst (start_of b)) (snd (start_of b))"

section \<open>Names for the parts of a lowered loop\<close>

text \<open>
  For a visit of a loop statement in the builder state \<open>b\<close>: the node \<open>loop_start\<close>
  that \<open>visit_loop\<close> builds first, the node \<open>end\<close> in which the lowering of the
  body ends, and the node \<open>join\<close> built after the body.
\<close>

definition loop_entry :: "'h cfg_builder \<Rightarrow> 'h cfg_node" where
  "loop_entry b = fst (build_node ''loop_start'' True None b)"

definition loop_end :: "'h stmt list \<Rightarrow> 'h cfg_builder \<Rightarrow> 'h cfg_node" where
  "loop_end body b =
     fst (visit_stmts body (loop_entry b) (snd (build_node ''loop_start'' True None b)))"

definition loop_exit :: "'h stmt list \<Rightarrow> 'h cfg_builder \<Rightarrow> 'h cfg_node" where
  "loop_exit body b =
     fst (build_node ''loop_join'' False None
       (snd (visit_stmts body (loop_entry b) (snd (build_node ''loop_start'' True None b)))))"

section \<open>An invariant of the lowering\<close>

text \<open>
  \<open>lowers cur b res\<close> relates the node and builder state a visit starts from to what
  it returns: registered nodes, edges and counters only grow; every node registered by
  the visit is reached from \<open>cur\<close> along the edges; the returned node is reached from
  \<open>cur\<close>; and every edge added by the visit ends in a registered node that is not a
  start node and leaves \<open>cur\<close> or a registered node.
\<close>

definition lowers :: "'h cfg_node \<Rightarrow> 'h cfg_builder \<Rightarrow> 'h cfg_node \<times> 'h cfg_builder \<Rightarrow> bool" where
  "lowers cur b res \<longleftrightarrow>
     set (nodes b) \<subseteq> set (nodes (snd res)) \<and>
     set (edges b) \<subseteq> set (edges (snd res)) \<and>
     (\<forall>k. key_counter b k \<le> key_counter (snd res) k) \<and>
     (\<forall>n \<in> set (nodes (snd res)). n \<in> set (nodes b) \<or> (cur, n) \<in> (set (edges (snd res)))\<^sup>+) \<and>
     (cur, fst res) \<in> (set (edges (snd res)))\<^sup>* \<and>
     (fst res = cur \<or> fst res \<in> set (nodes (snd res))) \<and>
     (\<forall>e \<in> set (edges (snd res)). e \<in> set (edges b) \<or>
        fst (name (snd e)) \<noteq> ''start'' \<and> snd e \<in> set (nodes (snd res)) \<and>
        (fst e = cur \<or> fst e \<in> set (nodes (snd res))))"

section \<open>The libadalang frontend\<close>

text \<open>
  The part of an Ada syntax tree that \<open>_gen_ir\<close> reads. An expression node carries
  what the frontend asks libadalang about it: the type (\<open>p_type_val\<close>, used as the
  type hint) and, for an identifier, its text and the declaration it refers to
  (\<open>p_ref_val\<close>). An object declaration is identified by a number and lists the names
  it declares, the declaration of their type and the default expression, if any. Node
  kinds the frontend has no case for are \<open>OtherExpr\<close>, \<open>OtherStmt\<close>,
  \<open>OtherDecl\<close>, \<open>OpOther\<close> and \<open>RefOther\<close>; \<open>RefNone\<close> is an
  unresolved reference.
\<close>

datatype lal_op = OpLt | OpLte | OpEq | OpNeq | OpGte | OpGt | OpPlus | OpMinus | OpNot | OpOther

datatype 'h lal_ref = RefObjectDecl nat | RefEnumLiteralDecl 'h | RefOther | RefNone

datatype 'h lal_expr =
    ParenExpr "'h lal_expr"
  | BinOp "'h lal_expr" lal_op "'h lal_expr" 'h
  | UnOp lal_op "'h lal_expr" 'h
  | IfExpr "'h lal_expr" "'h lal_expr" "'h lal_expr option"
  | LalIdentifier string "'h lal_ref"
  | IntLiteral string 'h
  | NullLiteral 'h
  | ExplicitDeref "'h lal_expr" 'h
  | AttributeRef "'h lal_expr" string 'h
  | OtherExpr

datatype 'h lal_stmt =
    LalAssignStmt string "'h lal_ref" "'h lal_expr"
  | IfStmt "'h lal_expr" "'h lal_stmt list" "'h lal_stmt list"
  | CaseStmt
  | LalLoopStmt "'h lal_stmt list"
  | WhileLoopStmt "'h lal_expr" "'h lal_stmt list"
  | ForLoopStmt
  | ExceptionHandler
  | OtherStmt

datatype 'h lal_decl =
    TypeDecl
  | EnumTypeDecl
  | ObjectDecl nat "string list" 'h "'h lal_expr option"
  | OtherDecl

datatype 'h subp = Subp (f_decls: "'h lal_decl list") (f_stmts: "'h lal_stmt list")

text \<open>
  \<open>var_decls\<close> maps a declaration and a name to the IR identifier created for it.
\<close>

type_synonym 'h var_decls = "nat \<times> string \<rightharpoonup> 'h expr"

text \<open>\<open>node.data.type_hint\<close>; \<open>None\<close> when the data bag has no such entry.\<close>

fun type_hint :: "'h expr \<Rightarrow> 'h option" where
  "type_hint (Identifier x h) = h"
| "type_hint (Lit v h) = h"
| "type_hint (UnExpr op e h) = h"
| "type_hint (BinExpr l op r h) = h"

text \<open>
  The table \<open>_lal_op_type_2_symbol\<close>, keyed by operator kind and arity; a key that
  is not in it raises \<open>KeyError\<close>.
\<close>

fun transform_operator :: "lal_op \<Rightarrow> nat \<Rightarrow> py_error + string" where
  "transform_operator OpLt arity = (if arity = 2 then Inr ''<'' else Inl KeyError)"
| "transform_operator OpLte arity = (if arity = 2 then Inr ''<='' else Inl KeyError)"
| "transform_operator OpEq arity = (if arity = 2 then Inr ''=='' else Inl KeyError)"
| "transform_operator OpNeq arity = (if arity = 2 then Inr ''!='' else Inl KeyError)"
| "transform_operator OpGte arity = (if arity = 2 then Inr ''>='' else Inl KeyError)"
| "transform_operator OpGt arity = (if arity = 2 then Inr ''>'' else Inl KeyError)"
| "transform_operator OpPlus arity = (if arity = 2 then Inr ''+'' else Inl KeyError)"
| "transform_operator OpMinus arity =
     (if arity = 2 then Inr ''-'' else if arity = 1 then Inr ''-'' else Inl KeyError)"
| "transform_operator OpNot arity = (if arity = 1 then Inr ''!'' else Inl KeyError)"
| "transform_operator OpOther arity = Inl KeyError"

text \<open>
  \<open>int(expr.f_tok.text)\<close> on the text of an integer literal token, which has neither
  sign nor blanks: a non-empty string of decimal digits is read, anything else (a based
  literal, an underscore) raises \<open>ValueError\<close>.
\<close>

definition is_digit :: "char \<Rightarrow> bool" where
  "is_digit c \<longleftrightarrow> c \<in> set ''0123456789''"

definition py_int :: "string \<Rightarrow> py_error + int" where
  "py_int s =
     (if s \<noteq> [] \<and> list_all is_digit s
      then Inr (foldl (\<lambda>a c. 10 * a + (of_char c - 48)) 0 s)
      else Inl ValueError)"

text \<open>
  \<open>transform_expr\<close> is written in continuation-passing style, as the source is:
  \<open>ctx\<close> receives the IR expression and returns the statements built around it. An
  if-expression calls \<open>ctx\<close> once for each branch and wraps the results in a split
  statement whose branches start with the assumption of the condition and of its
  negation.
\<close>

fun transform_expr :: "'h var_decls \<Rightarrow> 'h lal_expr \<Rightarrow> ('h expr \<Rightarrow> py_error + 'h stmt list)
    \<Rightarrow> py_error + 'h stmt list" where
  "transform_expr var_decls (ParenExpr e) ctx = transform_expr var_decls e ctx"
| "transform_expr var_decls (BinOp l op r h) ctx =
     transform_expr var_decls l (\<lambda>lhs.
       transform_expr var_decls r (\<lambda>rhs.
         (case transform_operator op 2 of Inl e \<Rightarrow> Inl e
          | Inr symbol \<Rightarrow> ctx (BinExpr lhs symbol rhs (Some h)))))"
| "transform_expr var_decls (UnOp op x h) ctx =
     transform_expr var_decls x (\<lambda>operand.
       (case transform_operator op 1 of Inl e \<Rightarrow> Inl e
        | Inr symbol \<Rightarrow> ctx (UnExpr symbol operand (Some h))))"
| "transform_expr var_decls (IfExpr c t el) ctx =
     transform_expr var_decls c (\<lambda>cond.
       transform_expr var_decls t (\<lambda>thn.
         (case el of None \<Rightarrow> Inl AttributeError
          | Some f_else_expr \<Rightarrow>
            transform_expr var_decls f_else_expr (\<lambda>els.
              (case type_hint cond of None \<Rightarrow> Inl AttributeError
               | Some hint \<Rightarrow>
                 (case ctx thn of Inl e \<Rightarrow> Inl e
                  | Inr then_rest \<Rightarrow>
                    (case ctx els of Inl e \<Rightarrow> Inl e
                     | Inr else_rest \<Rightarrow>
                         Inr [SplitStmt (AssumeStmt cond # then_rest)
                                (AssumeStmt (UnExpr ''!'' cond (Some hint)) # else_rest)])))))))"
| "transform_expr var_decls (LalIdentifier text ref) ctx =
     (case ref of
        RefNone \<Rightarrow> Inl AttributeError
      | RefObjectDecl d \<Rightarrow>
          (case var_decls (d, text) of None \<Rightarrow> Inl KeyError | Some v \<Rightarrow> ctx v)
      | RefEnumLiteralDecl hint \<Rightarrow> ctx (Lit (StrVal text) (Some hint))
      | RefOther \<Rightarrow> Inl NotImplementedError)"
| "transform_expr var_decls (IntLiteral text h) ctx =
     (case py_int text of Inl e \<Rightarrow> Inl e | Inr n \<Rightarrow> ctx (Lit (IntVal n) (Some h)))"
| "transform_expr var_decls (NullLiteral h) ctx = ctx (Lit (StrVal ''null'') (Some h))"
| "transform_expr var_decls (ExplicitDeref p h) ctx =
     transform_expr var_decls p (\<lambda>prefix. ctx (UnExpr ''*'' prefix (Some h)))"
| "transform_expr var_decls (AttributeRef p attribute h) ctx =
     (if attribute = ''Access''
      then transform_expr var_decls p (\<lambda>prefix. ctx (UnExpr ''&'' prefix (Some h)))
      else Inl NotImplementedError)"
| "transform_expr var_decls OtherExpr ctx = Inl NotImplementedError"

fun lookup_vars :: "'h var_decls \<Rightarrow> nat \<Rightarrow> string list \<Rightarrow> py_error + 'h expr list" where
  "lookup_vars var_decls decl [] = Inr []"
| "lookup_vars var_decls decl (var_id # rest) =
     (case var_decls (decl, var_id) of None \<Rightarrow> Inl KeyError
      | Some v \<Rightarrow>
        (case lookup_vars var_decls decl rest of Inl e \<Rightarrow> Inl e | Inr vs \<Rightarrow> Inr (v # vs)))"

fun transform_decl :: "'h lal_decl \<Rightarrow> 'h var_decls \<Rightarrow> (py_error + 'h stmt list) \<times> 'h var_decls" where
  "transform_decl TypeDecl var_decls = (Inr [], var_decls)"
| "transform_decl EnumTypeDecl var_decls = (Inr [], var_decls)"
| "transform_decl (ObjectDecl decl f_ids tdecl f_default_expr) var_decls =
     (let var_decls' = foldl (\<lambda>vd var_id. vd((decl, var_id) \<mapsto> Identifier var_id (Some tdecl)))
                         var_decls f_ids
      in (case f_default_expr of
            None \<Rightarrow>
              (case lookup_vars var_decls' decl f_ids of Inl e \<Rightarrow> (Inl e, var_decls')
               | Inr vs \<Rightarrow> (Inr (map ReadStmt vs), var_decls'))
          | Some default_expr \<Rightarrow>
              (transform_expr var_decls' default_expr (\<lambda>def_val.
                 (case lookup_vars var_decls' decl f_ids of Inl e \<Rightarrow> Inl e
                  | Inr vs \<Rightarrow> Inr (map (\<lambda>v. AssignStmt v def_val) vs))),
               var_decls')))"
| "transform_decl OtherDecl var_decls = (Inl NotImplementedError, var_decls)"

fun transform_stmt :: "'h var_decls \<Rightarrow> 'h lal_stmt \<Rightarrow> py_error + 'h stmt list"
  and transform_stmts :: "'h var_decls \<Rightarrow> 'h lal_stmt list \<Rightarrow> py_error + 'h stmt list" where
  "transform_stmt var_decls (LalAssignStmt dest_text dest_ref f_expr) =
     transform_expr var_decls f_expr (\<lambda>expr.
       (case dest_ref of
          RefObjectDecl d \<Rightarrow>
            (case var_decls (d, dest_text) of None \<Rightarrow> Inl KeyError
             | Some v \<Rightarrow> Inr [AssignStmt v expr])
        | _ \<Rightarrow> Inl KeyError))"
| "transform_stmt var_decls (IfStmt f_cond_expr f_then_stmts f_else_stmts) =
     transform_expr var_decls f_cond_expr (\<lambda>cond.
       (case type_hint cond of None \<Rightarrow> Inl AttributeError
        | Some hint \<Rightarrow>
          (case transform_stmts var_decls f_then_stmts of Inl e \<Rightarrow> Inl e
           | Inr then_rest \<Rightarrow>
             (case transform_stmts var_decls f_else_stmts of Inl e \<Rightarrow> Inl e
              | Inr else_rest \<Rightarrow>
                  Inr [SplitStmt (AssumeStmt cond # then_rest)
                         (AssumeStmt (UnExpr ''!'' cond (Some hint)) # else_rest)]))))"
| "transform_stmt var_decls CaseStmt = Inr []"
| "transform_stmt var_decls (LalLoopStmt loop_stmts) =
     (case transform_stmts var_decls loop_stmts of Inl e \<Rightarrow> Inl e
      | Inr body \<Rightarrow> Inr [LoopStmt body])"
| "transform_stmt var_decls (WhileLoopStmt f_expr loop_stmts) =
     transform_expr var_decls f_expr (\<lambda>cond.
       (case transform_stmts var_decls loop_stmts of Inl e \<Rightarrow> Inl e
        | Inr body \<Rightarrow> Inr [LoopStmt (AssumeStmt cond # body)]))"
| "transform_stmt var_decls ForLoopStmt = Inr []"
| "transform_stmt var_decls ExceptionHandler = Inr []"
| "transform_stmt var_decls OtherStmt = Inl NotImplementedError"
| "transform_stmts var_decls [] = Inr []"
| "transform_stmts var_decls (stmt # rest) =
     (case transform_stmt var_decls stmt of Inl e \<Rightarrow> Inl e
      | Inr res \<Rightarrow>
        (case transform_stmts var_decls rest of Inl e \<Rightarrow> Inl e
         | Inr res' \<Rightarrow> Inr (res @ res')))"

fun transform_decls :: "'h lal_decl list \<Rightarrow> 'h var_decls \<Rightarrow> (py_error + 'h stmt list) \<times> 'h var_decls" where
  "transform_decls [] var_decls = (Inr [], var_decls)"
| "transform_decls (decl # rest) var_decls =
     (case transform_decl decl var_decls of
        (Inl e, var_decls') \<Rightarrow> (Inl e, var_decls')
      | (Inr res, var_decls') \<Rightarrow>
          (case transform_decls rest var_decls' of
             (Inl e, var_decls'') \<Rightarrow> (Inl e, var_decls'')
           | (Inr res', var_decls'') \<Rightarrow> (Inr (res @ res'), var_decls'')))"

definition gen_ir :: "'h subp \<Rightarrow> py_error + 'h program" where
  "gen_ir subp =
     (case transform_decls (f_decls subp) Map.empty of
        (Inl e, var_decls) \<Rightarrow> Inl e
      | (Inr decl_stmts, var_decls) \<Rightarrow>
          (case transform_stmts var_decls (f_stmts subp) of Inl e \<Rightarrow> Inl e
           | Inr body \<Rightarrow> Inr (Program (decl_stmts @ body))))"

section \<open>Split statements as the frontend builds them\<close>

text \<open>
  \<open>seeded s\<close>: in every split statement of \<open>s\<close>, at any depth, the first branch
  starts with \<open>assume c\<close> and the second with \<open>assume !c\<close> for the same
  expression \<open>c\<close>, the negation carrying the type hint of \<open>c\<close>.
\<close>

fun seeded_heads :: "'h stmt list \<Rightarrow> 'h stmt list \<Rightarrow> bool" where
  "seeded_heads (AssumeStmt c # rf) (AssumeStmt (UnExpr op c' h) # rg) \<longleftrightarrow>
     op = ''!'' \<and> c' = c \<and> h \<noteq> None \<and> h = type_hint c"
| "seeded_heads f g \<longleftrightarrow> False"

fun seeded :: "'h stmt \<Rightarrow> bool" where
  "seeded (SplitStmt f g) \<longleftrightarrow>
     seeded_heads f g \<and> (\<forall>s \<in> set f. seeded s) \<and> (\<forall>s \<in> set g. seeded s)"
| "seeded (LoopStmt body) \<longleftrightarrow> (\<forall>s \<in> set body. seeded s)"
| "seeded (AssignStmt i e) \<longleftrightarrow> True"
| "seeded (ReadStmt i) \<longleftrightarrow> True"
| "seeded (UseStmt i) \<longleftrightarrow> True"
| "seeded (AssumeStmt e) \<longleftrightarrow> True"

text \<open>
  Names for the parts of a lowered split statement, for a visit starting from
  \<open>start\<close> in the builder state \<open>b\<close>: the node the first statement of each branch
  is lowered to, the node each branch ends in, and the join node.
\<close>

definition branch_entry :: "'h stmt list \<Rightarrow> 'h cfg_node \<Rightarrow> 'h cfg_builder \<Rightarrow> 'h cfg_node" where
  "branch_entry ss start b = (case ss of [] \<Rightarrow> start | s # rest \<Rightarrow> fst (visit_stmt s start b))"

definition split_fst_entry :: "'h stmt list \<Rightarrow> 'h cfg_node \<Rightarrow> 'h cfg_builder \<Rightarrow> 'h cfg_node" where
  "split_fst_entry fst_stmts start b = branch_entry fst_stmts start b"

definition split_snd_entry :: "'h stmt list \<Rightarrow> 'h stmt list \<Rightarrow> 'h cfg_node \<Rightarrow> 'h cfg_builder
    \<Rightarrow> 'h cfg_node" where
  "split_snd_entry fst_stmts snd_stmts start b =
     branch_entry snd_stmts start (snd (visit_stmts fst_stmts start b))"

definition split_fst_end :: "'h stmt list \<Rightarrow> 'h cfg_node \<Rightarrow> 'h cfg_builder \<Rightarrow> 'h cfg_node" where
  "split_fst_end fst_stmts start b = fst (visit_stmts fst_stmts start b)"

definition split_snd_end :: "'h stmt list \<Rightarrow> 'h stmt list \<Rightarrow> 'h cfg_node \<Rightarrow> 'h cfg_builder
    \<Rightarrow> 'h cfg_node" where
  "split_snd_end fst_stmts snd_stmts start b =
     fst (visit_stmts snd_stmts start (snd (visit_stmts fst_stmts start b)))"

definition split_join :: "'h stmt list \<Rightarrow> 'h stmt list \<Rightarrow> 'h cfg_node \<Rightarrow> 'h cfg_builder
    \<Rightarrow> 'h cfg_node" where
  "split_join fst_stmts snd_stmts start b = fst (visit_stmt (SplitStmt fst_stmts snd_stmts) start b)"

section \<open>Models\<close>

text \<open>
  A \<open>Models\<close> object holds a typer and a type interpreter. Both are outside
  collaborators: \<open>typer M hint\<close> is \<open>self.typer.from_hint(hint)\<close> and
  \<open>type_interpreter M tpe\<close> is \<open>self.type_interpreter.from_type(tpe)\<close>. They may
  raise, and they may build a new object at every call, so they run in a state \<open>'w\<close> of
  their own; the values of \<open>'ty\<close> and \<open>'dom\<close> are the type and domain instances,
  compared as the dictionaries of the source compare them. An interpretation is the
  4-tuple that \<open>of\<close> unpacks; \<open>None\<close> is any other result, on which the unpacking
  raises \<open>TypeError\<close>. A provider answers with a definition or with nothing.
  \<open>LookupError\<close> carries the operator name and the signature that its message
  \<open>"No provider for '{}' {}"\<close> is formatted from.
\<close>

datatype 'dom model_error = LookupError string "'dom list" | Raised py_error

type_synonym ('dom, 'd) provider = "string \<Rightarrow> 'dom list \<Rightarrow> 'd option"

type_synonym ('dom, 'def, 'inv, 'bld) interp =
  "'dom \<times> ('dom, 'def) provider \<times> ('dom, 'inv) provider \<times> 'bld"

record ('h, 'ty, 'dom, 'def, 'inv, 'bld, 'w) models =
  typer :: "'h \<Rightarrow> 'w \<Rightarrow> (py_error + 'ty) \<times> 'w"
  type_interpreter :: "'ty \<Rightarrow> 'w \<Rightarrow> (py_error + ('dom, 'def, 'inv, 'bld) interp option) \<times> 'w"

text \<open>
  The two \<open>@memoize\<close> caches (for one \<open>Models\<close> object) and the collaborators'
  state. A memoized call returns what the cache has for its argument; otherwise it calls
  the function and stores a result that was returned, not an exception that was raised.
\<close>

record ('h, 'ty, 'dom, 'def, 'inv, 'bld, 'w) memo =
  hint_memo :: "'h \<rightharpoonup> 'ty"
  type_memo :: "'ty \<rightharpoonup> ('dom, 'def, 'inv, 'bld) interp option"
  world :: 'w

definition hint_to_type :: "('h, 'ty, 'dom, 'def, 'inv, 'bld, 'w) models \<Rightarrow> 'h
    \<Rightarrow> ('h, 'ty, 'dom, 'def, 'inv, 'bld, 'w) memo
    \<Rightarrow> (py_error + 'ty) \<times> ('h, 'ty, 'dom, 'def, 'inv, 'bld, 'w) memo" where
  "hint_to_type M hint s =
     (case hint_memo s hint of
        Some tpe \<Rightarrow> (Inr tpe, s)
      | None \<Rightarrow>
          (case typer M hint (world s) of
             (Inl e, w) \<Rightarrow> (Inl e, s\<lparr>world := w\<rparr>)
           | (Inr tpe, w) \<Rightarrow> (Inr tpe, s\<lparr>hint_memo := (hint_memo s)(hint \<mapsto> tpe), world := w\<rparr>)))"

definition type_to_interp :: "('h, 'ty, 'dom, 'def, 'inv, 'bld, 'w) models \<Rightarrow> 'ty
    \<Rightarrow> ('h, 'ty, 'dom, 'def, 'inv, 'bld, 'w) memo
    \<Rightarrow> (py_error + ('dom, 'def, 'inv, 'bld) interp option) \<times> ('h, 'ty, 'dom, 'def, 'inv, 'bld, 'w) memo" where
  "type_to_interp M tpe s =
     (case type_memo s tpe of
        Some interp \<Rightarrow> (Inr interp, s)
      | None \<Rightarrow>
          (case type_interpreter M tpe (world s) of
             (Inl e, w) \<Rightarrow> (Inl e, s\<lparr>world := w\<rparr>)
           | (Inr interp, w) \<Rightarrow>
               (Inr interp, s\<lparr>type_memo := (type_memo s)(tpe \<mapsto> interp), world := w\<rparr>)))"

definition typeable_to_interp :: "('h, 'ty, 'dom, 'def, 'inv, 'bld, 'w) models \<Rightarrow> 'h expr
    \<Rightarrow> ('h, 'ty, 'dom, 'def, 'inv, 'bld, 'w) memo
    \<Rightarrow> (py_error + ('dom, 'def, 'inv, 'bld) interp option) \<times> ('h, 'ty, 'dom, 'def, 'inv, 'bld, 'w) memo" where
  "typeable_to_interp M n s =
     (case type_hint n of
        None \<Rightarrow> (Inl AttributeError, s)
      | Some hint \<Rightarrow>
          (case hint_to_type M hint s of
             (Inl e, s') \<Rightarrow> (Inl e, s')
           | (Inr tpe, s') \<Rightarrow> type_to_interp M tpe s'))"

definition has_type_hint :: "'h expr \<Rightarrow> bool" where
  "has_type_hint n \<longleftrightarrow> type_hint n \<noteq> None"

text \<open>
  The expression nodes of an expression and of a statement, each node before its
  operands.
\<close>

fun expr_nodes :: "'h expr \<Rightarrow> 'h expr list" where
  "expr_nodes (Identifier x h) = [Identifier x h]"
| "expr_nodes (Lit v h) = [Lit v h]"
| "expr_nodes (UnExpr op e h) = UnExpr op e h # expr_nodes e"
| "expr_nodes (BinExpr l op r h) = BinExpr l op r h # expr_nodes l @ expr_nodes r"

fun stmt_nodes :: "'h stmt \<Rightarrow> 'h expr list" where
  "stmt_nodes (AssignStmt i e) = expr_nodes i @ expr_nodes e"
| "stmt_nodes (ReadStmt i) = expr_nodes i"
| "stmt_nodes (UseStmt i) = expr_nodes i"
| "stmt_nodes (AssumeStmt e) = expr_nodes e"
| "stmt_nodes (SplitStmt f g) = concat (map stmt_nodes f) @ concat (map stmt_nodes g)"
| "stmt_nodes (LoopStmt body) = concat (map stmt_nodes body)"

text \<open>
  Modelled from the spec: \<open>visitors.findall\<close> is not among the sources. The spec has
  the model hold an entry "for every node in the given programs that carries a type
  hint"; \<open>findall prog p\<close> lists the expression nodes of the program that satisfy
  \<open>p\<close>.
\<close>

definition findall :: "'h program \<Rightarrow> ('h expr \<Rightarrow> bool) \<Rightarrow> 'h expr list" where
  "findall prog p = filter p (concat (map stmt_nodes (stmts prog)))"

text \<open>
  \<open>_aggregate_provider\<close> over the providers in the order the set is iterated in.
\<close>

fun aggregate_provider :: "('dom, 'd) provider list \<Rightarrow> string \<Rightarrow> 'dom list
    \<Rightarrow> 'dom model_error + 'd" where
  "aggregate_provider [] nm signature = Inl (LookupError nm signature)"
| "aggregate_provider (provider # providers) nm signature =
     (case provider nm signature of
        Some definition \<Rightarrow> Inr definition
      | None \<Rightarrow> aggregate_provider providers nm signature)"

text \<open>
  \<open>node.visit(self, node_domains, defs, inv_defs, builders)\<close> for the four kinds of
  typed nodes. The dictionaries are association lists; a missing key raises
  \<open>KeyError\<close>.
\<close>

fun models_visit :: "('h expr \<times> 'dom) list
    \<Rightarrow> (string \<Rightarrow> 'dom list \<Rightarrow> 'dom model_error + 'def)
    \<Rightarrow> (string \<Rightarrow> 'dom list \<Rightarrow> 'dom model_error + 'inv)
    \<Rightarrow> ('dom \<times> 'bld) list \<Rightarrow> 'h expr
    \<Rightarrow> 'dom model_error + ('dom, 'def, 'inv, 'bld) bunch" where
  "models_visit node_domains defs inv_defs builders (UnExpr op e h) =
     (case map_of node_domains (UnExpr op e h) of None \<Rightarrow> Inl (Raised KeyError) | Some dmn \<Rightarrow>
      (case map_of node_domains e of None \<Rightarrow> Inl (Raised KeyError) | Some expr_dom \<Rightarrow>
       (case defs op [expr_dom, dmn] of Inl err \<Rightarrow> Inl err | Inr definition \<Rightarrow>
        (case inv_defs op [expr_dom, dmn] of Inl err \<Rightarrow> Inl err | Inr inverse_def \<Rightarrow>
           Inr (OpBunch dmn definition inverse_def)))))"
| "models_visit node_domains defs inv_defs builders (BinExpr l op r h) =
     (case map_of node_domains (BinExpr l op r h) of None \<Rightarrow> Inl (Raised KeyError) | Some dmn \<Rightarrow>
      (case map_of node_domains l of None \<Rightarrow> Inl (Raised KeyError) | Some lhs_dom \<Rightarrow>
       (case map_of node_domains r of None \<Rightarrow> Inl (Raised KeyError) | Some rhs_dom \<Rightarrow>
        (case defs op [lhs_dom, rhs_dom, dmn] of Inl err \<Rightarrow> Inl err | Inr definition \<Rightarrow>
         (case inv_defs op [lhs_dom, rhs_dom, dmn] of Inl err \<Rightarrow> Inl err | Inr inverse_def \<Rightarrow>
            Inr (OpBunch dmn definition inverse_def))))))"
| "models_visit node_domains defs inv_defs builders (Identifier x h) =
     (case map_of node_domains (Identifier x h) of None \<Rightarrow> Inl (Raised KeyError)
      | Some dmn \<Rightarrow> Inr (IdentBunch dmn))"
| "models_visit node_domains defs inv_defs builders (Lit v h) =
     (case map_of node_domains (Lit v h) of None \<Rightarrow> Inl (Raised KeyError) | Some dmn \<Rightarrow>
      (case map_of builders dmn of None \<Rightarrow> Inl (Raised KeyError)
       | Some builder \<Rightarrow> Inr (LitBunch dmn builder)))"

text \<open>
  \<open>Models.of\<close>: the first loop fills \<open>node_domains\<close>, the two provider sets and
  \<open>builders\<close> (\<open>collect_domains\<close>), the second visits every key of
  \<open>node_domains\<close> (\<open>build_model\<close>). Python leaves the iteration order of a
  dictionary and of a set open; here it is the order of insertion.
\<close>

type_synonym ('h, 'dom, 'def, 'inv, 'bld) collected =
  "('h expr \<times> 'dom) list \<times> ('dom, 'def) provider list \<times> ('dom, 'inv) provider list
     \<times> ('dom \<times> 'bld) list"

fun collect_domains :: "('h, 'ty, 'dom, 'def, 'inv, 'bld, 'w) models \<Rightarrow> 'h expr list
    \<Rightarrow> ('h, 'dom, 'def, 'inv, 'bld) collected
    \<Rightarrow> ('h, 'ty, 'dom, 'def, 'inv, 'bld, 'w) memo
    \<Rightarrow> ('dom model_error + ('h, 'dom, 'def, 'inv, 'bld) collected)
        \<times> ('h, 'ty, 'dom, 'def, 'inv, 'bld, 'w) memo" where
  "collect_domains M [] acc s = (Inr acc, s)"
| "collect_domains M (n # typeable) (node_domains, def_providers, inv_def_providers, builders) s =
     (case typeable_to_interp M n s of
        (Inl e, s') \<Rightarrow> (Inl (Raised e), s')
      | (Inr None, s') \<Rightarrow> (Inl (Raised TypeError), s')
      | (Inr (Some (domain, domain_defs, domain_inv_defs, domain_builder)), s') \<Rightarrow>
          collect_domains M typeable
            (AList.update n domain node_domains,
             List.insert domain_defs def_providers,
             List.insert domain_inv_defs inv_def_providers,
             AList.update domain domain_builder builders) s')"

fun build_model :: "('h expr \<times> 'dom) list
    \<Rightarrow> (string \<Rightarrow> 'dom list \<Rightarrow> 'dom model_error + 'def)
    \<Rightarrow> (string \<Rightarrow> 'dom list \<Rightarrow> 'dom model_error + 'inv)
    \<Rightarrow> ('dom \<times> 'bld) list \<Rightarrow> 'h expr list
    \<Rightarrow> ('h expr \<times> ('dom, 'def, 'inv, 'bld) bunch) list
    \<Rightarrow> 'dom model_error + ('h expr \<times> ('dom, 'def, 'inv, 'bld) bunch) list" where
  "build_model node_domains defs inv_defs builders [] model = Inr model"
| "build_model node_domains defs inv_defs builders (n # keys) model =
     (case models_visit node_domains defs inv_defs builders n of
        Inl e \<Rightarrow> Inl e
      | Inr entry \<Rightarrow>
          build_model node_domains defs inv_defs builders keys (AList.update n entry model))"

definition models_of :: "('h, 'ty, 'dom, 'def, 'inv, 'bld, 'w) models \<Rightarrow> 'h program list
    \<Rightarrow> ('h, 'ty, 'dom, 'def, 'inv, 'bld, 'w) memo
    \<Rightarrow> ('dom model_error + ('h expr \<times> ('dom, 'def, 'inv, 'bld) bunch) list)
        \<times> ('h, 'ty, 'dom, 'def, 'inv, 'bld, 'w) memo" where
  "models_of M programs s =
     (case collect_domains M (concat (map (\<lambda>prog. findall prog has_type_hint) programs))
             ([], [], [], []) s of
        (Inl e, s') \<Rightarrow> (Inl e, s')
      | (Inr (node_domains, def_providers, inv_def_providers, builders), s') \<Rightarrow>
          (build_model node_domains (aggregate_provider def_providers)
             (aggregate_provider inv_def_providers) builders (map fst node_domains) [], s'))"

text \<open>
  \<open>requests node_domains n op signature\<close>: visiting \<open>n\<close> asks the providers for
  the operator \<open>op\<close> at the signature \<open>signature\<close>, the tuple of the operand
  domains and the result domain that \<open>visit_unexpr\<close> and \<open>visit_binexpr\<close> build.
\<close>

definition requests :: "('h expr \<times> 'dom) list \<Rightarrow> 'h expr \<Rightarrow> string \<Rightarrow> 'dom list \<Rightarrow> bool" where
  "requests node_domains n op signature \<longleftrightarrow>
     (case n of
        UnExpr op' e h \<Rightarrow>
          (case (map_of node_domains n, map_of node_domains e) of
             (Some dmn, Some expr_dom) \<Rightarrow> op = op' \<and> signature = [expr_dom, dmn]
           | _ \<Rightarrow> False)
      | BinExpr l op' r h \<Rightarrow>
          (case (map_of node_domains n, map_of node_domains l, map_of node_domains r) of
             (Some dmn, Some lhs_dom, Some rhs_dom) \<Rightarrow> op = op' \<and> signature = [lhs_dom, rhs_dom, dmn]
           | _ \<Rightarrow> False)
      | _ \<Rightarrow> False)"

text \<open>
  \<open>resolved s node_domains\<close>: every domain in \<open>node_domains\<close> is the one that the
  caches of \<open>s\<close> give for the type hint of its node.
\<close>

definition resolved :: "('h, 'ty, 'dom, 'def, 'inv, 'bld, 'w) memo \<Rightarrow> ('h expr \<times> 'dom) list \<Rightarrow> bool" where
  "resolved s node_domains \<longleftrightarrow>
     (\<forall>n d. map_of node_domains n = Some d \<longrightarrow>
        (\<exists>hint tpe defs inv_defs builder. type_hint n = Some hint \<and> hint_memo s hint = Some tpe \<and>
           type_memo s tpe = Some (Some (d, defs, inv_defs, builder))))"

section \<open>The checkers\<close>

text \<open>
  \<open>find_null_derefs\<close> and \<open>find_invalid_accesses\<close> take the assume nodes tagged
  with their purpose from \<open>collect_assumes_with_purpose\<close> (applied to
  \<open>analysis.cfg\<close> and the purpose class) and the values of the checked expression
  from \<open>eval_expr_at\<close>. Both helpers live in \<open>lalcheck.checkers.support.utils\<close>,
  which is not among the sources, and are parameters here. A value of the checked
  expression is a frozen set of booleans; \<open>len\<close> is \<open>fcard\<close>. The intermediate
  lists keep the names they have in the source.
\<close>

datatype 'e deref_check = DerefCheck (derefed_expr: 'e)

datatype ('a, 'd) results = Results (analysis_results: 'a) (diagnostics: "'d list")

datatype ('a, 'd) analysis_result = AnalysisResult (sem_analysis: 'a) (infeasibles: "'d list")

definition derefed_values :: "('a \<Rightarrow> ('n \<times> 'e \<times> 'e deref_check) list)
    \<Rightarrow> ('a \<Rightarrow> 'n \<Rightarrow> 'e \<Rightarrow> ('t \<times> bool fset) list) \<Rightarrow> 'a
    \<Rightarrow> ('t \<times> 'e deref_check \<times> bool fset) list" where
  "derefed_values collect_assumes_with_purpose eval_expr_at analysis =
     concat (map (\<lambda>(n, check_expr, purpose).
                map (\<lambda>(trace, val). (trace, purpose, val)) (eval_expr_at analysis n check_expr))
              (collect_assumes_with_purpose analysis))"

definition find_null_derefs :: "('a \<Rightarrow> ('n \<times> 'e \<times> 'e deref_check) list)
    \<Rightarrow> ('a \<Rightarrow> 'n \<Rightarrow> 'e \<Rightarrow> ('t \<times> bool fset) list) \<Rightarrow> 'a
    \<Rightarrow> ('a, 't \<times> 'e \<times> bool) results" where
  "find_null_derefs collect_assumes_with_purpose eval_expr_at analysis =
     Results analysis
       (map (\<lambda>(trace, purpose, val). (trace, derefed_expr purpose, fcard val = 1))
          (filter (\<lambda>(trace, purpose, val). False |\<in>| val)
             (derefed_values collect_assumes_with_purpose eval_expr_at analysis)))"

definition exist_check_values :: "('a \<Rightarrow> ('n \<times> 'e \<times> 'p) list)
    \<Rightarrow> ('a \<Rightarrow> 'n \<Rightarrow> 'e \<Rightarrow> ('t \<times> bool fset) list) \<Rightarrow> 'a
    \<Rightarrow> ('t \<times> 'p \<times> bool fset) list" where
  "exist_check_values collect_assumes_with_purpose eval_expr_at analysis =
     concat (map (\<lambda>(n, check_expr, purpose).
                map (\<lambda>(trace, val). (trace, purpose, val)) (eval_expr_at analysis n check_expr))
              (collect_assumes_with_purpose analysis))"

definition find_invalid_accesses :: "('a \<Rightarrow> ('n \<times> 'e \<times> 'p) list)
    \<Rightarrow> ('a \<Rightarrow> 'n \<Rightarrow> 'e \<Rightarrow> ('t \<times> bool fset) list) \<Rightarrow> 'a
    \<Rightarrow> ('a, 't \<times> 'p \<times> bool) results" where
  "find_invalid_accesses collect_assumes_with_purpose eval_expr_at analysis =
     Results analysis
       (map (\<lambda>(trace, purpose, val). (trace, purpose, fcard val = 1))
          (filter (\<lambda>(trace, purpose, val). False |\<in>| val)
             (exist_check_values collect_assumes_with_purpose eval_expr_at analysis)))"

text \<open>
  The older checker \<open>check_variants\<close> walks the graph itself: the nodes built from an
  assume statement that has an \<open>ExistCheck\<close> purpose (\<open>exist_check_of\<close> gives the
  purpose of such a statement), and for each the values that \<open>analysis.eval_at\<close> has
  at its ancestors. \<open>FALSE\<close> is the constant \<open>lits.FALSE\<close>.
\<close>

definition variant_check_values :: "'h digraph \<Rightarrow> ('h stmt \<Rightarrow> 'p option)
    \<Rightarrow> ('h digraph \<Rightarrow> 'h cfg_node \<Rightarrow> 'h cfg_node list)
    \<Rightarrow> ('h cfg_node \<Rightarrow> 'h expr \<Rightarrow> ('h cfg_node list \<times> 'v fset) list)
    \<Rightarrow> ('h cfg_node fset \<times> 'p \<times> 'v fset) list" where
  "variant_check_values cfg exist_check_of ancestors eval_at =
     (let nodes_with_ast =
            concat (map (\<lambda>n. case node n of None \<Rightarrow> [] | Some ast_node \<Rightarrow> [(n, ast_node)])
                      (graph_nodes cfg));
          exist_checks =
            concat (map (\<lambda>(n, ast_node).
                       case ast_node of
                         AssumeStmt e \<Rightarrow>
                           (case exist_check_of ast_node of None \<Rightarrow> []
                            | Some purpose \<Rightarrow> [(n, e, purpose)])
                       | _ \<Rightarrow> [])
                      nodes_with_ast)
      in concat (map (\<lambda>(n, e, purpose).
                    concat (map (\<lambda>anc.
                              map (\<lambda>(trace, val). (finsert n (fset_of_list trace), purpose, val))
                                (eval_at anc e))
                            (ancestors cfg n)))
                  exist_checks))"

definition check_variants :: "'a \<Rightarrow> 'h digraph \<Rightarrow> ('h stmt \<Rightarrow> 'p option)
    \<Rightarrow> ('h digraph \<Rightarrow> 'h cfg_node \<Rightarrow> 'h cfg_node list)
    \<Rightarrow> ('h cfg_node \<Rightarrow> 'h expr \<Rightarrow> ('h cfg_node list \<times> 'v fset) list) \<Rightarrow> 'v
    \<Rightarrow> ('a, 'h cfg_node fset \<times> 'p \<times> bool) analysis_result" where
  "check_variants analysis cfg exist_check_of ancestors eval_at FALSE =
     AnalysisResult analysis
       (map (\<lambda>(trace, purpose, val). (trace, purpose, fcard val = 1))
          (filter (\<lambda>(trace, purpose, val). FALSE |\<in>| val)
             (variant_check_values cfg exist_check_of ancestors eval_at)))"

section \<open>Example inputs for the solver\<close>

text \<open>
  A two-point domain: abstract values are sets of booleans, \<open>meet\<close> is intersection
  and the empty set is the bottom element. One identifier \<open>x\<close>, the literal
  \<open>True\<close>, a negation and an equality test, and a store whose dictionary 0 binds
  \<open>x\<close> to \<open>{False}\<close>.
\<close>

definition set_domain :: "bool set domain" where
  "set_domain = \<lparr>meet = (\<inter>), is_empty = (\<lambda>v. v = {})\<rparr>"

definition ex_x :: "unit expr" where "ex_x = Identifier ''x'' None"

definition ex_model :: "(unit, bool set) model" where
  "ex_model = [ex_x \<mapsto> IdentBunch set_domain]"

definition ex_lit :: "unit expr" where "ex_lit = Lit (StrVal ''True'') None"

definition ex_not :: "unit expr" where "ex_not = UnExpr ''!'' ex_x None"

definition ex_eq :: "unit expr" where "ex_eq = BinExpr ex_x ''=='' ex_lit None"

definition not_inv :: "bool set \<Rightarrow> bool set \<Rightarrow> bool set option" where
  "not_inv expected v = (if Not ` expected \<inter> v = {} then None else Some (Not ` expected \<inter> v))"

definition eq_def :: "bool set \<Rightarrow> bool set \<Rightarrow> bool set" where
  "eq_def l r = (if l \<inter> r = {} then {} else {True}) \<union> (if l = r \<and> (l = {True} \<or> l = {False}) \<or> l = {} \<or> r = {} then {} else {False})"

definition eq_inv :: "bool set \<Rightarrow> bool set \<Rightarrow> bool set \<Rightarrow> (bool set \<times> bool set) option" where
  "eq_inv expected l r =
     (if expected = {True} then (if l \<inter> r = {} then None else Some (l \<inter> r, l \<inter> r))
      else Some (l, r))"

definition ex_ops_model :: "(unit, bool set) model" where
  "ex_ops_model = [ex_x \<mapsto> IdentBunch set_domain,
     ex_lit \<mapsto> LitBunch set_domain (\<lambda>v. {True}),
     ex_not \<mapsto> OpBunch set_domain (Def1 (image Not)) (Inv1 not_inv),
     ex_eq \<mapsto> OpBunch set_domain (Def2 eq_def) (Inv2 eq_inv)]"

definition ex_store :: "(unit, bool set) store" where
  "ex_store = \<lparr>cells = (\<lambda>a. Map.empty)(0 := [ex_x \<mapsto> {False}]), next_addr = 1\<rparr>"





section \<open>Example inputs for the CFG builder\<close>

text \<open>
  A fresh builder, and the program \<open>read x; loop { assume x == True; x := True }\<close>
  with the nodes its graph has.
\<close>

definition ex_builder :: "unit cfg_builder" where
  "ex_builder = \<lparr>nodes = [], edges = [], key_counter = (\<lambda>k. 0)\<rparr>"

definition ex_loop_prog :: "unit program" where
  "ex_loop_prog = Program [ReadStmt ex_x, LoopStmt [AssumeStmt ex_eq, AssignStmt ex_x ex_lit]]"

definition ex_loop_join :: "unit cfg_node" where
  "ex_loop_join = \<lparr>name = (''loop_join'', 0), is_widening_point = False, node = None\<rparr>"

definition ex_start :: "unit cfg_node" where
  "ex_start = \<lparr>name = (''start'', 0), is_widening_point = False, node = None\<rparr>"

definition ex_read_node :: "unit cfg_node" where
  "ex_read_node = \<lparr>name = (''read'', 0), is_widening_point = False, node = Some (ReadStmt ex_x)\<rparr>"

definition ex_loop_state :: "unit cfg_builder" where
  "ex_loop_state = \<lparr>nodes = [ex_read_node], edges = [(ex_start, ex_read_node)],
     key_counter = (\<lambda>k. 0)(''start'' := 1, ''read'' := 1)\<rparr>"

definition ex_loop_start :: "unit cfg_node" where
  "ex_loop_start = \<lparr>name = (''loop_start'', 0), is_widening_point = True, node = None\<rparr>"

section \<open>Example input for the frontend\<close>

text \<open>
  The subprogram \<open>b : Boolean; begin if b then b := False; end if; end\<close>, its IR,
  and the node and builder state from which its split statement is visited.
\<close>

definition ex_b :: "unit expr" where "ex_b = Identifier ''b'' (Some ())"

definition ex_subp :: "unit subp" where
  "ex_subp = Subp [ObjectDecl 0 [''b''] () None]
     [IfStmt (LalIdentifier ''b'' (RefObjectDecl 0))
        [LalAssignStmt ''b'' (RefObjectDecl 0) (LalIdentifier ''False'' (RefEnumLiteralDecl ()))]
        []]"

definition ex_then :: "unit stmt list" where
  "ex_then = [AssumeStmt ex_b, AssignStmt ex_b (Lit (StrVal ''False'') (Some ()))]"

definition ex_else :: "unit stmt list" where
  "ex_else = [AssumeStmt (UnExpr ''!'' ex_b (Some ()))]"

definition ex_split_prog :: "unit program" where
  "ex_split_prog = Program [ReadStmt ex_b, SplitStmt ex_then ex_else]"

definition ex_split_pred :: "unit cfg_node" where
  "ex_split_pred = \<lparr>name = (''read'', 0), is_widening_point = False, node = Some (ReadStmt ex_b)\<rparr>"

definition ex_split_state :: "unit cfg_builder" where
  "ex_split_state = \<lparr>nodes = [ex_split_pred], edges = [(ex_start, ex_split_pred)],
     key_counter = (\<lambda>k. 0)(''start'' := 1, ''read'' := 1)\<rparr>"

text \<open>
  Two programs that are not the IR of any subprogram: a split statement with two empty
  branches, and one whose branches are \<open>read b\<close> and \<open>use b\<close>. Both are lowered
  from the start node in the builder state that \<open>visit_program\<close> has after building
  it.
\<close>

definition ex_bare_split :: "unit program" where
  "ex_bare_split = Program [SplitStmt [] []]"

definition ex_plain_split :: "unit program" where
  "ex_plain_split = Program [SplitStmt [ReadStmt ex_b] [UseStmt ex_b]]"

definition ex_start_state :: "unit cfg_builder" where
  "ex_start_state = \<lparr>nodes = [], edges = [], key_counter = (\<lambda>k. 0)(''start'' := 1)\<rparr>"

definition ex_split_join :: "unit cfg_node" where
  "ex_split_join = \<lparr>name = (''split_join'', 0), is_widening_point = False, node = None\<rparr>"

section \<open>Example inputs for Models\<close>

text \<open>
  A typer and an interpreter that build a new instance at every call (the instance is
  its allocation number), with providers that know no operation; the programs
  \<open>b := False\<close> and \<open>assume !b\<close>.
\<close>

definition ex_no_provider :: "(nat, unit) provider" where
  "ex_no_provider = (\<lambda>nm signature. None)"

definition ex_models :: "(unit, nat, nat, unit, unit, unit, nat) models" where
  "ex_models = \<lparr>typer = (\<lambda>hint w. (Inr w, Suc w)),
     type_interpreter = (\<lambda>tpe w. (Inr (Some (w, ex_no_provider, ex_no_provider, ())), Suc w))\<rparr>"

definition ex_memo :: "(unit, nat, nat, unit, unit, unit, nat) memo" where
  "ex_memo = \<lparr>hint_memo = Map.empty, type_memo = Map.empty, world = 0\<rparr>"

definition ex_false :: "unit expr" where "ex_false = Lit (StrVal ''False'') (Some ())"

definition ex_not_b :: "unit expr" where "ex_not_b = UnExpr ''!'' ex_b (Some ())"

definition ex_assign_prog :: "unit program" where
  "ex_assign_prog = Program [AssignStmt ex_b ex_false]"

definition ex_assume_prog :: "unit program" where
  "ex_assume_prog = Program [AssumeStmt ex_not_b]"

definition ex_assign_model :: "(unit expr \<times> (nat, unit, unit, unit) bunch) list" where
  "ex_assign_model = [(ex_b, IdentBunch 1), (ex_false, LitBunch 1 ())]"

definition ex_node_domains :: "(unit expr \<times> nat) list" where
  "ex_node_domains = [(ex_not_b, 1), (ex_b, 1)]"

section \<open>Example input for the checkers\<close>

text \<open>
  One dereference check, evaluated on three traces: surely null, maybe null, never null.
\<close>

definition ex_deref_checks :: "unit \<Rightarrow> (nat \<times> string \<times> string deref_check) list" where
  "ex_deref_checks analysis = [(0, ''p /= null'', DerefCheck ''p'')]"

definition ex_eval_expr_at :: "unit \<Rightarrow> nat \<Rightarrow> string \<Rightarrow> (string \<times> bool fset) list" where
  "ex_eval_expr_at analysis n check_expr =
     [(''t1'', {|False|}), (''t2'', {|True, False|}), (''t3'', {|True|})]"

text \<open>
  A graph for \<open>check_variants\<close>: an assume node with an \<open>ExistCheck\<close> purpose, an
  assume node without one, and the start node. The ancestors of a node are taken here to
  be the sources of the edges into it, and the evaluation at an ancestor yields three
  traces: surely false, maybe false, never false.
\<close>

definition ex_field_check :: "unit stmt \<Rightarrow> string option" where
  "ex_field_check s = (if s = AssumeStmt ex_x then Some ''field'' else None)"

definition ex_tagged :: "unit cfg_node" where
  "ex_tagged = \<lparr>name = (''assume'', 0), is_widening_point = False, node = Some (AssumeStmt ex_x)\<rparr>"

definition ex_untagged :: "unit cfg_node" where
  "ex_untagged = \<lparr>name = (''assume'', 1), is_widening_point = False, node = Some (AssumeStmt ex_eq)\<rparr>"

definition ex_check_cfg :: "unit digraph" where
  "ex_check_cfg = Digraph [ex_tagged, ex_untagged, ex_start]
     [(ex_start, ex_tagged), (ex_tagged, ex_untagged)]"

definition ex_ancestors :: "unit digraph \<Rightarrow> unit cfg_node \<Rightarrow> unit cfg_node list" where
  "ex_ancestors g n = map fst (filter (\<lambda>e. snd e = n) (graph_edges g))"

definition ex_eval_at :: "unit cfg_node \<Rightarrow> unit expr \<Rightarrow> (unit cfg_node list \<times> bool fset) list" where
  "ex_eval_at anc e = [([anc], {|False|}), ([], {|True, False|}), ([anc, anc], {|True|})]"

section \<open>Properties of the expression solver\<close>

text \<open>
  What the visitor does at an operation node, split by whether the inverse semantics
  found a solution, and the frame of the visitor: it writes to the one dictionary it was
  given and allocates nothing.
\<close>

lemma bunch_inverse_Inr: "bunch_inverse b = Inr i \<Longrightarrow> \<exists>d g. b = OpBunch d g i"
  by (cases b) auto

lemma visit_bin_skip:
  "\<not> (\<exists>lv rv b d g f el er. eval m l (cells s env) = Inr lv \<and> eval m r (cells s env) = Inr rv \<and>
       m (BinExpr l op r h) = Some (OpBunch d g (Inv2 f)) \<and> f expected lv rv = Some (el, er))
   \<Longrightarrow> snd (visit m (BinExpr l op r h) env expected s) = s"
  by (auto split: option.splits sum.splits invn.splits dest!: bunch_inverse_Inr)

lemma visit_bin_step:
  "eval m l (cells s env) = Inr lv \<Longrightarrow> eval m r (cells s env) = Inr rv \<Longrightarrow>
   m (BinExpr l op r h) = Some (OpBunch d g (Inv2 f)) \<Longrightarrow> f expected lv rv = Some (el, er) \<Longrightarrow>
   visit m (BinExpr l op r h) env expected s =
     (if fst (visit m l env el s) = Inr True then visit m r env er (snd (visit m l env el s))
      else visit m l env el s)"
  by (auto split: prod.splits sum.splits bool.splits)

lemma visit_un_skip:
  "\<not> (\<exists>v d g f ex. eval m x (cells s env) = Inr v \<and>
       m (UnExpr op x h) = Some (OpBunch d g (Inv1 f)) \<and> f expected v = Some ex)
   \<Longrightarrow> snd (visit m (UnExpr op x h) env expected s) = s"
  by (auto split: option.splits sum.splits invn.splits dest!: bunch_inverse_Inr)

lemma visit_un_step:
  "eval m x (cells s env) = Inr v \<Longrightarrow> m (UnExpr op x h) = Some (OpBunch d g (Inv1 f)) \<Longrightarrow>
   f expected v = Some ex \<Longrightarrow>
   visit m (UnExpr op x h) env expected s = visit m x env ex s"
  by simp

lemma visit_frame:
  "next_addr (snd (visit m e env expected s)) = next_addr s \<and>
   (\<forall>a. a \<noteq> env \<longrightarrow> cells (snd (visit m e env expected s)) a = cells s a)"
proof (induction e arbitrary: expected s)
  case (Identifier x h)
  then show ?case by (simp add: setitem_def split: option.splits)
next
  case (Lit val h)
  then show ?case by (simp split: option.splits sum.splits)
next
  case (UnExpr op x h)
  show ?case
  proof (cases "\<exists>v d g f ex. eval m x (cells s env) = Inr v \<and>
       m (UnExpr op x h) = Some (OpBunch d g (Inv1 f)) \<and> f expected v = Some ex")
    case True
    then obtain v d g f ex where "eval m x (cells s env) = Inr v"
      "m (UnExpr op x h) = Some (OpBunch d g (Inv1 f))" "f expected v = Some ex" by blast
    then have "visit m (UnExpr op x h) env expected s = visit m x env ex s"
      by (rule visit_un_step)
    with UnExpr show ?thesis by simp
  next
    case False
    then have "snd (visit m (UnExpr op x h) env expected s) = s" by (rule visit_un_skip)
    then show ?thesis by simp
  qed
next
  case (BinExpr l op r h)
  show ?case
  proof (cases "\<exists>lv rv b d g f el er. eval m l (cells s env) = Inr lv \<and> eval m r (cells s env) = Inr rv \<and>
       m (BinExpr l op r h) = Some (OpBunch d g (Inv2 f)) \<and> f expected lv rv = Some (el, er)")
    case True
    then obtain lv rv d g f el er where "eval m l (cells s env) = Inr lv"
      "eval m r (cells s env) = Inr rv" "m (BinExpr l op r h) = Some (OpBunch d g (Inv2 f))"
      "f expected lv rv = Some (el, er)" by blast
    then have step: "visit m (BinExpr l op r h) env expected s =
     (if fst (visit m l env el s) = Inr True then visit m r env er (snd (visit m l env el s))
      else visit m l env el s)" by (rule visit_bin_step)
    show ?thesis
      unfolding step using BinExpr.IH(1) [of el s] BinExpr.IH(2) [of er "snd (visit m l env el s)"]
      by simp
  next
    case False
    then have "snd (visit m (BinExpr l op r h) env expected s) = s" by (rule visit_bin_skip)
    then show ?thesis by simp
  qed
qed

text \<open>
  Claim C1 does not hold of the code. \<open>visit_ident\<close> stores the meet of the
  identifier's value with the expected value and answers \<open>True\<close> without testing
  the meet for emptiness, whereas \<open>visit_lit\<close> tests the same kind of meet with
  \<open>is_empty\<close> and \<open>visit_binexpr\<close> and \<open>visit_unexpr\<close> answer \<open>False\<close>
  when there is no solution. So when the assumption is an identifier that the model and
  the environment know and the meet of its value with \<open>boolean_ops.true\<close> is empty,
  \<open>solve\<close> does not return its infeasible result, the empty dictionary: it returns
  the copy of the environment, in which the identifier is bound to the empty element.
\<close>

theorem solve_ident_empty_meet_not_infeasible:
  assumes "m (Identifier x h) = Some b" and "cells s env (Identifier x h) = Some v"
    and "is_empty (bunch_domain b) (meet (bunch_domain b) v true)"
  shows "visit m (Identifier x h) (next_addr s) true (snd (alloc (cells s env) s)) =
           (Inr True, setitem (next_addr s) (Identifier x h) (meet (bunch_domain b) v true)
                        (snd (alloc (cells s env) s)))
       \<and> fst (solve m true (Identifier x h) env s) = Inr (next_addr s)
       \<and> cells (snd (solve m true (Identifier x h) env s)) (next_addr s) =
           (cells s env)(Identifier x h \<mapsto> meet (bunch_domain b) v true)
       \<and> cells (snd (solve m true (Identifier x h) env s)) (next_addr s) \<noteq> Map.empty"
proof -
  have v: "visit m (Identifier x h) (next_addr s) true (snd (alloc (cells s env) s)) =
           (Inr True, setitem (next_addr s) (Identifier x h) (meet (bunch_domain b) v true)
                        (snd (alloc (cells s env) s)))"
    using assms(1,2) by (simp add: alloc_def)
  have r: "fst (solve m true (Identifier x h) env s) = Inr (next_addr s)"
    using assms(1,2) by (simp add: solve_def alloc_def setitem_def)
  have c: "cells (snd (solve m true (Identifier x h) env s)) (next_addr s) =
           (cells s env)(Identifier x h \<mapsto> meet (bunch_domain b) v true)"
    using assms(1,2) by (simp add: solve_def alloc_def setitem_def)
  have "cells (snd (solve m true (Identifier x h) env s)) (next_addr s) (Identifier x h) \<noteq> None"
    unfolding c by simp
  then have n: "cells (snd (solve m true (Identifier x h) env s)) (next_addr s) \<noteq> Map.empty"
    by auto
  from v r c n show ?thesis by (intro conjI)
qed

theorem solve_ident_empty_meet_not_infeasible_witness:
  "ex_model ex_x = Some (IdentBunch set_domain) \<and>
   cells ex_store 0 ex_x = Some {False} \<and>
   is_empty set_domain (meet set_domain {False} {True}) \<and>
   fst (solve ex_model {True} ex_x 0 ex_store) = Inr 1 \<and>
   cells (snd (solve ex_model {True} ex_x 0 ex_store)) 1 = [ex_x \<mapsto> {}] \<and>
   cells (snd (solve ex_model {True} ex_x 0 ex_store)) 1 \<noteq> Map.empty"
proof -
  have a: "ex_model (Identifier ''x'' None) = Some (IdentBunch set_domain)"
    by (simp add: ex_model_def ex_x_def)
  have b: "cells ex_store 0 (Identifier ''x'' None) = Some {False}"
    by (simp add: ex_store_def ex_x_def)
  have c: "is_empty (bunch_domain (IdentBunch set_domain))
             (meet (bunch_domain (IdentBunch set_domain)) {False} {True})"
    by (simp add: set_domain_def)
  have n: "next_addr ex_store = 1" by (simp add: ex_store_def)
  have e: "(cells ex_store 0)(Identifier ''x'' None \<mapsto> {}) = [ex_x \<mapsto> {}]"
    by (simp add: ex_store_def ex_x_def)
  have m: "meet set_domain {False} {True} = {}"
    by (simp add: set_domain_def)
  note inst = solve_ident_empty_meet_not_infeasible [where m = ex_model and x = "''x''"
      and h = None and b = "IdentBunch set_domain" and s = ex_store and env = 0
      and v = "{False}" and true = "{True}", OF a b c]
  have r1: "fst (solve ex_model {True} ex_x 0 ex_store) = Inr 1"
    using inst [THEN conjunct2, THEN conjunct1] by (simp add: n ex_x_def)
  have r2: "cells (snd (solve ex_model {True} ex_x 0 ex_store)) 1 = [ex_x \<mapsto> {}]"
    using inst [THEN conjunct2, THEN conjunct2, THEN conjunct1] e
    by (simp add: n m ex_x_def)
  have r3: "cells (snd (solve ex_model {True} ex_x 0 ex_store)) 1 \<noteq> Map.empty"
    using inst [THEN conjunct2, THEN conjunct2, THEN conjunct2] by (simp add: n ex_x_def)
  have a': "ex_model ex_x = Some (IdentBunch set_domain)" using a by (simp add: ex_x_def)
  have b': "cells ex_store 0 ex_x = Some {False}" using b by (simp add: ex_x_def)
  have c': "is_empty set_domain (meet set_domain {False} {True})" using c by simp
  from a' b' c' r1 r2 r3 show ?thesis by (intro conjI)
qed






text \<open>
  Claim C9: at a literal the answer is feasible if and only if the meet of the expected
  value with the literal's built value is not empty, and the store (hence every binding
  of every environment) is left as it was, also when the visit raises.
\<close>

theorem visit_lit_feasible_iff_meet_nonempty:
  "snd (visit m (Lit val h) env expected s) = s \<and>
   (m (Lit val h) = Some (LitBunch d build) \<longrightarrow>
    fst (visit m (Lit val h) env expected s) = Inr (\<not> is_empty d (meet d expected (build val))))"
  by (auto split: option.splits sum.splits)

theorem visit_lit_feasible_iff_meet_nonempty_witness:
  "snd (visit ex_ops_model (Lit (StrVal ''True'') None) 0 {False} ex_store) = ex_store \<and>
   ex_ops_model (Lit (StrVal ''True'') None) = Some (LitBunch set_domain (\<lambda>v. {True})) \<and>
   fst (visit ex_ops_model (Lit (StrVal ''True'') None) 0 {False} ex_store) = Inr False \<and>
   fst (visit ex_ops_model (Lit (StrVal ''True'') None) 0 {True} ex_store) = Inr True"
proof -
  have a: "ex_ops_model (Lit (StrVal ''True'') None) = Some (LitBunch set_domain (\<lambda>v. {True}))"
    by (simp add: ex_ops_model_def ex_lit_def ex_eq_def ex_not_def ex_x_def)
  show ?thesis
    using a
      visit_lit_feasible_iff_meet_nonempty [of ex_ops_model "StrVal ''True''" None 0 "{False}" ex_store set_domain "\<lambda>v. {True}"]
      visit_lit_feasible_iff_meet_nonempty [of ex_ops_model "StrVal ''True''" None 0 "{True}" ex_store set_domain "\<lambda>v. {True}"]
    by (simp add: set_domain_def)
qed

text \<open>
  Claim C10: \<open>solve\<close> works on a copy. Whatever the expression and the model, and
  whether it returns the narrowed copy, the empty dictionary or raises, the dictionary
  the caller passed holds the same bindings afterwards, and the dictionary returned is
  never the caller's.
\<close>

theorem solve_leaves_caller_env:
  assumes lt: "env < next_addr s"
  shows "cells (snd (solve m true expr env s)) env = cells s env \<and>
         fst (solve m true expr env s) \<noteq> Inr env"
proof -
  obtain new_env s0 where a: "alloc (cells s env) s = (new_env, s0)" by (cases "alloc (cells s env) s")
  then have ne: "new_env = next_addr s" and s0: "cells s0 env = cells s env"
    using lt by (auto simp: alloc_def)
  from visit_frame [of m expr new_env true s0] ne lt
  have fr: "cells (snd (visit m expr new_env true s0)) env = cells s0 env"
    and nx: "next_addr (snd (visit m expr new_env true s0)) = next_addr s0" by auto
  have n0: "next_addr s0 = Suc (next_addr s)" using a by (auto simp: alloc_def)
  show ?thesis
    using a fr nx n0 s0 lt
    by (auto simp: solve_def alloc_def split: prod.splits sum.splits bool.splits)
qed

theorem solve_leaves_caller_env_witness:
  "(0::nat) < next_addr ex_store \<and>
   fst (solve ex_ops_model {True} ex_x 0 ex_store) = Inr 1 \<and>
   cells (snd (solve ex_ops_model {True} ex_x 0 ex_store)) 1 ex_x = Some {} \<and>
   cells (snd (solve ex_ops_model {True} ex_x 0 ex_store)) 0 = cells ex_store 0 \<and>
   cells ex_store 0 ex_x = Some {False}"
proof -
  have a: "(0::nat) < next_addr ex_store" by (simp add: ex_store_def)
  have b: "fst (solve ex_ops_model {True} ex_x 0 ex_store) = Inr 1 \<and>
   cells (snd (solve ex_ops_model {True} ex_x 0 ex_store)) 1 ex_x = Some {}"
    by (simp add: solve_def alloc_def setitem_def ex_ops_model_def ex_store_def ex_x_def
        ex_lit_def ex_eq_def ex_not_def set_domain_def)
  have c: "cells ex_store 0 ex_x = Some {False}" by (simp add: ex_store_def)
  show ?thesis
    using a b c
      solve_leaves_caller_env [where env = 0 and s = ex_store and m = ex_ops_model
        and true = "{True}" and expr = ex_x]
    by simp
qed

section \<open>Properties of the CFG builder\<close>

text \<open>
  Every visit satisfies the invariant \<open>lowers\<close>: by induction along the builder's
  recursion, with one lemma for each way the builder combines graphs (sequence, a node
  linked from given predecessors, a loop).
\<close>

lemma build_node_simps [simp]:
  "fst (build_node nm wp orig b) = \<lparr>name = (nm, key_counter b nm), is_widening_point = wp, node = orig\<rparr>"
  "nodes (snd (build_node nm wp orig b)) = nodes b"
  "edges (snd (build_node nm wp orig b)) = edges b"
  "key_counter (snd (build_node nm wp orig b)) = (key_counter b)(nm := Suc (key_counter b nm))"
  by (simp_all add: build_node_def fresh_def get_incr_def)

lemma register_and_link_simps [simp]:
  "nodes (register_and_link froms n b) = nodes b @ [n]"
  "edges (register_and_link froms n b) = edges b @ map (\<lambda>f. (f, n)) froms"
  "key_counter (register_and_link froms n b) = key_counter b"
  by (simp_all add: register_and_link_def)

lemma lowers_refl: "lowers cur b (cur, b)"
  by (simp add: lowers_def)

lemma lowers_atom:
  assumes "nm \<noteq> ''start''"
  shows "lowers cur b (fst (build_node nm wp orig b),
           register_and_link [cur] (fst (build_node nm wp orig b)) (snd (build_node nm wp orig b)))"
  using assms by (auto simp: lowers_def)

lemma lowers_seq:
  assumes 1: "lowers cur b (c1, b1)" and 2: "lowers c b1 res" and c: "c = c1 \<or> c = cur"
  shows "lowers cur b res"
proof -
  let ?E1 = "set (edges b1)" and ?E = "set (edges (snd res))"
  have sub: "?E1 \<subseteq> ?E" using 2 by (simp add: lowers_def)
  have nsub: "set (nodes b1) \<subseteq> set (nodes (snd res))" using 2 by (simp add: lowers_def)
  have cc: "(cur, c) \<in> ?E\<^sup>*"
    using c 1 rtrancl_mono [OF sub] by (auto simp: lowers_def)
  have cn: "c = cur \<or> c \<in> set (nodes (snd res))"
    using c 1 nsub by (auto simp: lowers_def)
  have reach: "n \<in> set (nodes b) \<or> (cur, n) \<in> ?E\<^sup>+" if "n \<in> set (nodes (snd res))" for n
  proof -
    from 2 that have "n \<in> set (nodes b1) \<or> (c, n) \<in> ?E\<^sup>+" by (simp add: lowers_def)
    then show ?thesis
    proof
      assume "n \<in> set (nodes b1)"
      with 1 have "n \<in> set (nodes b) \<or> (cur, n) \<in> ?E1\<^sup>+" by (simp add: lowers_def)
      with trancl_mono [OF _ sub] show ?thesis by blast
    next
      assume "(c, n) \<in> ?E\<^sup>+"
      with cc show ?thesis by (meson rtrancl_trancl_trancl)
    qed
  qed
  have fin: "(cur, fst res) \<in> ?E\<^sup>*"
  proof -
    from 2 have "(c, fst res) \<in> ?E\<^sup>*" by (simp add: lowers_def)
    with cc show ?thesis by (rule rtrancl_trans)
  qed
  have last: "fst res = cur \<or> fst res \<in> set (nodes (snd res))"
    using 2 cn by (auto simp: lowers_def)
  have edg: "e \<in> set (edges b) \<or>
        fst (name (snd e)) \<noteq> ''start'' \<and> snd e \<in> set (nodes (snd res)) \<and>
        (fst e = cur \<or> fst e \<in> set (nodes (snd res)))" if "e \<in> ?E" for e
  proof -
    from 2 that have "e \<in> ?E1 \<or>
        fst (name (snd e)) \<noteq> ''start'' \<and> snd e \<in> set (nodes (snd res)) \<and>
        (fst e = c \<or> fst e \<in> set (nodes (snd res)))" by (simp add: lowers_def)
    then show ?thesis
    proof
      assume "e \<in> ?E1"
      with 1 have "e \<in> set (edges b) \<or>
        fst (name (snd e)) \<noteq> ''start'' \<and> snd e \<in> set (nodes b1) \<and>
        (fst e = cur \<or> fst e \<in> set (nodes b1))" by (simp add: lowers_def)
      with nsub show ?thesis by blast
    next
      assume "fst (name (snd e)) \<noteq> ''start'' \<and> snd e \<in> set (nodes (snd res)) \<and>
        (fst e = c \<or> fst e \<in> set (nodes (snd res)))"
      with cn show ?thesis by blast
    qed
  qed
  have mono: "set (nodes b) \<subseteq> set (nodes (snd res))" "set (edges b) \<subseteq> set (edges (snd res))"
    "\<forall>k. key_counter b k \<le> key_counter (snd res) k"
    using 1 2 by (auto simp: lowers_def intro: order_trans)
  show ?thesis
    unfolding lowers_def using mono reach fin last edg by blast
qed


lemma lowers_link:
  assumes 1: "lowers cur b (c, b2)" and nm: "nm \<noteq> ''start''" and ne: "froms \<noteq> []"
    and fr: "\<forall>f \<in> set froms. (cur, f) \<in> (set (edges b2))\<^sup>* \<and> (f = cur \<or> f \<in> set (nodes b2))"
  shows "lowers cur b (fst (build_node nm wp orig b2),
           register_and_link froms (fst (build_node nm wp orig b2)) (snd (build_node nm wp orig b2)))"
proof -
  let ?n = "fst (build_node nm wp orig b2)"
  let ?b' = "register_and_link froms ?n (snd (build_node nm wp orig b2))"
  let ?E = "set (edges ?b')"
  have sub: "set (edges b2) \<subseteq> ?E" by auto
  obtain f where f: "f \<in> set froms" using ne by (cases froms) auto
  then have "(f, ?n) \<in> ?E" by auto
  moreover have "(cur, f) \<in> ?E\<^sup>*" using fr f rtrancl_mono [OF sub] by blast
  ultimately have new: "(cur, ?n) \<in> ?E\<^sup>+" by (meson rtrancl_into_trancl1)
  have reach: "n \<in> set (nodes b) \<or> (cur, n) \<in> ?E\<^sup>+" if "n \<in> set (nodes ?b')" for n
  proof (cases "n = ?n")
    case True
    with new show ?thesis by simp
  next
    case False
    with that have "n \<in> set (nodes b2)" by simp
    with 1 have "n \<in> set (nodes b) \<or> (cur, n) \<in> (set (edges b2))\<^sup>+" by (simp add: lowers_def)
    with trancl_mono [OF _ sub] show ?thesis by blast
  qed
  have edg: "e \<in> set (edges b) \<or>
        fst (name (snd e)) \<noteq> ''start'' \<and> snd e \<in> set (nodes ?b') \<and>
        (fst e = cur \<or> fst e \<in> set (nodes ?b'))" if "e \<in> ?E" for e
  proof (cases "e \<in> set (edges b2)")
    case True
    with 1 have "e \<in> set (edges b) \<or>
        fst (name (snd e)) \<noteq> ''start'' \<and> snd e \<in> set (nodes b2) \<and>
        (fst e = cur \<or> fst e \<in> set (nodes b2))" by (simp add: lowers_def)
    then show ?thesis by auto
  next
    case False
    with that obtain g where "g \<in> set froms" "e = (g, ?n)" by auto
    with fr nm show ?thesis by auto
  qed
  have mono: "set (nodes b) \<subseteq> set (nodes ?b')" "set (edges b) \<subseteq> set (edges ?b')"
    "\<forall>k. key_counter b k \<le> key_counter ?b' k"
    using 1 by (auto simp: lowers_def intro: le_SucI)
  have "(cur, ?n) \<in> ?E\<^sup>*" using new by (rule trancl_into_rtrancl)
  moreover have "?n \<in> set (nodes ?b')" by simp
  ultimately show ?thesis
    unfolding lowers_def fst_conv snd_conv using mono reach edg by blast
qed

lemma lowers_mono:
  assumes "lowers cur b res"
  shows "set (nodes b) \<subseteq> set (nodes (snd res))" and "set (edges b) \<subseteq> set (edges (snd res))"
    and "key_counter b k \<le> key_counter (snd res) k"
  using assms by (simp_all add: lowers_def)

lemma lowers_path:
  assumes "lowers cur b res"
  shows "(cur, fst res) \<in> (set (edges (snd res)))\<^sup>*"
    and "fst res = cur \<or> fst res \<in> set (nodes (snd res))"
  using assms by (simp_all add: lowers_def)

lemma lowers_loop:
  assumes body: "lowers (fst (build_node ''loop_start'' True None b))
      (snd (build_node ''loop_start'' True None b)) (end, b2)"
  shows "lowers start b (fst (build_node ''loop_join'' False None b2),
     register_and_link [fst (build_node ''loop_start'' True None b)]
       (fst (build_node ''loop_join'' False None b2))
       (register_and_link [start, end] (fst (build_node ''loop_start'' True None b))
          (snd (build_node ''loop_join'' False None b2))))"
proof -
  let ?ls = "fst (build_node ''loop_start'' True None b)"
  let ?b1 = "snd (build_node ''loop_start'' True None b)"
  let ?j = "fst (build_node ''loop_join'' False None b2)"
  let ?b5 = "register_and_link [?ls] ?j (register_and_link [start, end] ?ls
          (snd (build_node ''loop_join'' False None b2)))"
  let ?E = "set (edges ?b5)"
  have E: "?E = set (edges b2) \<union> {(start, ?ls), (end, ?ls), (?ls, ?j)}" by auto
  have N: "set (nodes ?b5) = set (nodes b2) \<union> {?ls, ?j}" by auto
  have sub: "set (edges b2) \<subseteq> ?E" by auto
  have s_ls: "(start, ?ls) \<in> ?E\<^sup>+" using E by blast
  have "(?ls, ?j) \<in> ?E" using E by blast
  with s_ls have s_j: "(start, ?j) \<in> ?E\<^sup>+" by (rule trancl_into_trancl)
  have reach: "n \<in> set (nodes b) \<or> (start, n) \<in> ?E\<^sup>+" if "n \<in> set (nodes ?b5)" for n
  proof -
    from that N consider "n \<in> set (nodes b2)" | "n = ?ls" | "n = ?j" by blast
    then show ?thesis
    proof cases
      case 1
      with body have "n \<in> set (nodes ?b1) \<or> (?ls, n) \<in> (set (edges b2))\<^sup>+"
        by (simp add: lowers_def)
      then show ?thesis
      proof
        assume "n \<in> set (nodes ?b1)" then show ?thesis by simp
      next
        assume "(?ls, n) \<in> (set (edges b2))\<^sup>+"
        then have "(?ls, n) \<in> ?E\<^sup>+" using trancl_mono [OF _ sub] by blast
        with s_ls show ?thesis by (meson trancl_trans)
      qed
    next
      case 2 with s_ls show ?thesis by simp
    next
      case 3 with s_j show ?thesis by simp
    qed
  qed
  have endn: "end = ?ls \<or> end \<in> set (nodes b2)" using lowers_path(2) [OF body] by simp
  have edg: "e \<in> set (edges b) \<or>
        fst (name (snd e)) \<noteq> ''start'' \<and> snd e \<in> set (nodes ?b5) \<and>
        (fst e = start \<or> fst e \<in> set (nodes ?b5))" if "e \<in> ?E" for e
  proof -
    from that E consider "e \<in> set (edges b2)" | "e = (start, ?ls)" | "e = (end, ?ls)" | "e = (?ls, ?j)"
      by blast
    then show ?thesis
    proof cases
      case 1
      with body have "e \<in> set (edges ?b1) \<or>
        fst (name (snd e)) \<noteq> ''start'' \<and> snd e \<in> set (nodes b2) \<and>
        (fst e = ?ls \<or> fst e \<in> set (nodes b2))" by (simp add: lowers_def)
      with N show ?thesis by auto
    next
      case 2 then show ?thesis by simp
    next
      case 3 with endn N show ?thesis by auto
    next
      case 4 then show ?thesis by simp
    qed
  qed
  have mono: "set (nodes b) \<subseteq> set (nodes ?b5)" "set (edges b) \<subseteq> set (edges ?b5)"
    using lowers_mono(1,2) [OF body] by auto
  have cnt: "key_counter b k \<le> key_counter ?b5 k" for k
  proof -
    have "key_counter b k \<le> key_counter ?b1 k" by simp
    also have "\<dots> \<le> key_counter b2 k" using lowers_mono(3) [OF body] by simp
    also have "\<dots> \<le> key_counter ?b5 k" by simp
    finally show ?thesis .
  qed
  have "(start, ?j) \<in> ?E\<^sup>*" using s_j by (rule trancl_into_rtrancl)
  moreover have "?j \<in> set (nodes ?b5)" by simp
  ultimately show ?thesis
    unfolding lowers_def fst_conv snd_conv using mono cnt reach edg by blast
qed

lemma visit_stmt_lowers: "lowers cur b (visit_stmt s cur b)"
  and visit_stmts_lowers: "lowers cur b (visit_stmts ss cur b)"
proof (induction s cur b and ss cur b rule: visit_stmt_visit_stmts.induct)
  case (1 fst_stmts snd_stmts start b)
  obtain e1 b1 where f: "visit_stmts fst_stmts start b = (e1, b1)" by (cases "visit_stmts fst_stmts start b")
  obtain e2 b2 where g: "visit_stmts snd_stmts start b1 = (e2, b2)" by (cases "visit_stmts snd_stmts start b1")
  have l1: "lowers start b (e1, b1)" using 1(1) f by simp
  have l2: "lowers start b1 (e2, b2)" using 1(2) [OF f [symmetric]] g by simp
  have l12: "lowers start b (e2, b2)" using l1 l2 by (rule lowers_seq) simp
  have p1: "(start, e1) \<in> (set (edges b2))\<^sup>*"
    using lowers_path(1) [OF l1] rtrancl_mono [OF lowers_mono(2) [OF l2]] by auto
  have n1: "e1 = start \<or> e1 \<in> set (nodes b2)"
    using lowers_path(2) [OF l1] lowers_mono(1) [OF l2] by auto
  have "lowers start b (fst (build_node ''split_join'' False None b2),
           register_and_link [e1, e2] (fst (build_node ''split_join'' False None b2))
             (snd (build_node ''split_join'' False None b2)))"
    using l12 p1 n1 lowers_path [OF l2] by (intro lowers_link) auto
  then show ?case using f g by (simp add: case_prod_unfold)
next
  case (2 body start b)
  obtain e b2 where f: "visit_stmts body (fst (build_node ''loop_start'' True None b))
      (snd (build_node ''loop_start'' True None b)) = (e, b2)"
    by (cases "visit_stmts body (fst (build_node ''loop_start'' True None b))
      (snd (build_node ''loop_start'' True None b))")
  have "lowers (fst (build_node ''loop_start'' True None b))
      (snd (build_node ''loop_start'' True None b)) (e, b2)"
    using 2 [OF prod.collapse] f by simp
  from lowers_loop [OF this, of start] show ?case using f by (simp add: case_prod_unfold)
next
  case (3 i e start b)
  show ?case using lowers_atom [of "''assign''" start b False] by (simp add: case_prod_unfold)
next
  case (4 i start b)
  show ?case using lowers_atom [of "''read''" start b False] by (simp add: case_prod_unfold)
next
  case (5 i start b)
  show ?case using lowers_atom [of "''use''" start b False] by (simp add: case_prod_unfold)
next
  case (6 e start b)
  show ?case using lowers_atom [of "''assume''" start b False] by (simp add: case_prod_unfold)
next
  case (7 cur b)
  show ?case by (simp add: lowers_refl)
next
  case (8 s ss cur b)
  obtain c1 b1 where f: "visit_stmt s cur b = (c1, b1)" by (cases "visit_stmt s cur b")
  have l1: "lowers cur b (c1, b1)" using 8(1) f by simp
  have l2: "lowers c1 b1 (visit_stmts ss c1 b1)" using 8(2) [OF f [symmetric]] .
  from l1 l2 have "lowers cur b (visit_stmts ss c1 b1)" by (rule lowers_seq) simp
  then show ?case using f by simp
qed

lemma visit_split_state:
  "nodes (snd (visit_stmt (SplitStmt f g) start b)) =
     nodes (snd (visit_stmts g start (snd (visit_stmts f start b)))) @
       [fst (build_node ''split_join'' False None (snd (visit_stmts g start (snd (visit_stmts f start b)))))]"
  "edges (snd (visit_stmt (SplitStmt f g) start b)) =
     edges (snd (visit_stmts g start (snd (visit_stmts f start b)))) @
       [(fst (visit_stmts f start b),
         fst (build_node ''split_join'' False None (snd (visit_stmts g start (snd (visit_stmts f start b)))))),
        (fst (visit_stmts g start (snd (visit_stmts f start b))),
         fst (build_node ''split_join'' False None (snd (visit_stmts g start (snd (visit_stmts f start b))))))]"
  "fst (visit_stmt (SplitStmt f g) start b) =
     fst (build_node ''split_join'' False None (snd (visit_stmts g start (snd (visit_stmts f start b)))))"
  by (simp_all add: case_prod_unfold)

lemma visit_loop_state:
  "nodes (snd (visit_stmt (LoopStmt body) start b)) =
     nodes (snd (visit_stmts body (loop_entry b) (snd (build_node ''loop_start'' True None b)))) @
       [loop_entry b, loop_exit body b]"
  "edges (snd (visit_stmt (LoopStmt body) start b)) =
     edges (snd (visit_stmts body (loop_entry b) (snd (build_node ''loop_start'' True None b)))) @
       [(start, loop_entry b), (loop_end body b, loop_entry b), (loop_entry b, loop_exit body b)]"
  "fst (visit_stmt (LoopStmt body) start b) = loop_exit body b"
  by (simp_all add: case_prod_unfold loop_entry_def loop_end_def loop_exit_def)

lemma visit_stmts_Cons_state:
  "visit_stmts (s # ss) cur b = visit_stmts ss (fst (visit_stmt s cur b)) (snd (visit_stmt s cur b))"
  by (simp add: case_prod_unfold)

lemma visits_stmt_within:
  "(s0, c0, b0) \<in> set (visits_stmt s cur b) \<Longrightarrow>
     set (nodes (snd (visit_stmt s0 c0 b0))) \<subseteq> set (nodes (snd (visit_stmt s cur b))) \<and>
     set (edges (snd (visit_stmt s0 c0 b0))) \<subseteq> set (edges (snd (visit_stmt s cur b)))"
  and visits_stmts_within:
  "(s0, c0, b0) \<in> set (visits_stmts ss cur b) \<Longrightarrow>
     set (nodes (snd (visit_stmt s0 c0 b0))) \<subseteq> set (nodes (snd (visit_stmts ss cur b))) \<and>
     set (edges (snd (visit_stmt s0 c0 b0))) \<subseteq> set (edges (snd (visit_stmts ss cur b)))"
proof (induction s cur b and ss cur b rule: visits_stmt_visits_stmts.induct)
  case (1 f g start b)
  let ?b1 = "snd (visit_stmts f start b)"
  let ?b2 = "snd (visit_stmts g start ?b1)"
  have m12: "set (nodes ?b1) \<subseteq> set (nodes ?b2)" "set (edges ?b1) \<subseteq> set (edges ?b2)"
    using lowers_mono(1,2) [OF visit_stmts_lowers [of start ?b1 g]] by auto
  have fin: "set (nodes ?b2) \<subseteq> set (nodes (snd (visit_stmt (SplitStmt f g) start b)))"
    "set (edges ?b2) \<subseteq> set (edges (snd (visit_stmt (SplitStmt f g) start b)))"
    by (auto simp: visit_split_state simp del: visit_stmt.simps)
  from 1(3) consider "(s0, c0, b0) = (SplitStmt f g, start, b)"
    | "(s0, c0, b0) \<in> set (visits_stmts f start b)"
    | "(s0, c0, b0) \<in> set (visits_stmts g start ?b1)" by auto
  then show ?case
  proof cases
    case 1 then show ?thesis by simp
  next
    case 2
    from 1(1) [OF this] m12 fin show ?thesis by blast
  next
    case 3
    from 1(2) [OF this] fin show ?thesis by blast
  qed
next
  case (2 body start b)
  let ?b2 = "snd (visit_stmts body (loop_entry b) (snd (build_node ''loop_start'' True None b)))"
  have fin: "set (nodes ?b2) \<subseteq> set (nodes (snd (visit_stmt (LoopStmt body) start b)))"
    "set (edges ?b2) \<subseteq> set (edges (snd (visit_stmt (LoopStmt body) start b)))"
    by (auto simp: visit_loop_state simp del: visit_stmt.simps)
  from 2(2) consider "(s0, c0, b0) = (LoopStmt body, start, b)"
    | "(s0, c0, b0) \<in> set (visits_stmts body (loop_entry b) (snd (build_node ''loop_start'' True None b)))"
    by (auto simp: loop_entry_def)
  then show ?case
  proof cases
    case 1 then show ?thesis by simp
  next
    case 2
    from 2 "2.IH" fin show ?thesis unfolding loop_entry_def by blast
  qed
next
  case (3 i e start b) then show ?case by simp
next
  case (4 i start b) then show ?case by simp
next
  case (5 i start b) then show ?case by simp
next
  case (6 e start b) then show ?case by simp
next
  case (7 cur b) then show ?case by simp
next
  case (8 s ss cur b)
  let ?c1 = "fst (visit_stmt s cur b)" and ?b1 = "snd (visit_stmt s cur b)"
  have m: "set (nodes ?b1) \<subseteq> set (nodes (snd (visit_stmts ss ?c1 ?b1)))"
    "set (edges ?b1) \<subseteq> set (edges (snd (visit_stmts ss ?c1 ?b1)))"
    using lowers_mono(1,2) [OF visit_stmts_lowers [of ?c1 ?b1 ss]] by auto
  from 8(3) consider "(s0, c0, b0) \<in> set (visits_stmt s cur b)"
    | "(s0, c0, b0) \<in> set (visits_stmts ss ?c1 ?b1)" by auto
  then show ?case
  proof cases
    case 1
    from 8(1) [OF this] m show ?thesis unfolding visit_stmts_Cons_state by blast
  next
    case 2
    from 8(2) [OF this] show ?thesis unfolding visit_stmts_Cons_state by blast
  qed
qed

lemma widening_stmt_from_loop:
  "n \<in> set (nodes (snd (visit_stmt s cur b))) \<Longrightarrow> is_widening_point n \<Longrightarrow>
     n \<in> set (nodes b) \<or>
     (\<exists>body st bb. (LoopStmt body, st, bb) \<in> set (visits_stmt s cur b) \<and> n = loop_entry bb)"
  and widening_stmts_from_loop:
  "n \<in> set (nodes (snd (visit_stmts ss cur b))) \<Longrightarrow> is_widening_point n \<Longrightarrow>
     n \<in> set (nodes b) \<or>
     (\<exists>body st bb. (LoopStmt body, st, bb) \<in> set (visits_stmts ss cur b) \<and> n = loop_entry bb)"
proof (induction s cur b and ss cur b rule: visits_stmt_visits_stmts.induct)
  case (1 f g start b)
  let ?b1 = "snd (visit_stmts f start b)"
  let ?b2 = "snd (visit_stmts g start ?b1)"
  from 1(3,4) have "n \<in> set (nodes ?b2)"
    by (auto simp: visit_split_state simp del: visit_stmt.simps)
  from 1(2) [OF this 1(4)] 1(1) [OF _ 1(4)] show ?case by auto
next
  case (2 body start b)
  let ?b1 = "snd (build_node ''loop_start'' True None b)"
  let ?b2 = "snd (visit_stmts body (loop_entry b) ?b1)"
  from 2(2,3) consider "n \<in> set (nodes ?b2)" | "n = loop_entry b"
    by (auto simp: visit_loop_state loop_exit_def simp del: visit_stmt.simps)
  then show ?case
  proof cases
    case 1
    from "2.IH" [unfolded loop_entry_def [symmetric], OF 1 2(3)] show ?thesis
      by (auto simp: loop_entry_def)
  next
    case 2 then show ?thesis by auto
  qed
next
  case (3 i e start b) then show ?case by (auto simp: case_prod_unfold)
next
  case (4 i start b) then show ?case by (auto simp: case_prod_unfold)
next
  case (5 i start b) then show ?case by (auto simp: case_prod_unfold)
next
  case (6 e start b) then show ?case by (auto simp: case_prod_unfold)
next
  case (7 cur b) then show ?case by simp
next
  case (8 s ss cur b)
  from 8(3) have "n \<in> set (nodes (snd (visit_stmts ss (fst (visit_stmt s cur b)) (snd (visit_stmt s cur b)))))"
    by (simp add: case_prod_unfold)
  from 8(2) [OF this 8(4)] 8(1) [OF _ 8(4)] show ?case by auto
qed


lemma loop_local:
  "loop_entry b \<in> set (nodes (snd (visit_stmt (LoopStmt body) start b)))"
  "loop_exit body b \<in> set (nodes (snd (visit_stmt (LoopStmt body) start b)))"
  "(start, loop_entry b) \<in> set (edges (snd (visit_stmt (LoopStmt body) start b)))"
  "(loop_end body b, loop_entry b) \<in> set (edges (snd (visit_stmt (LoopStmt body) start b)))"
  "(loop_entry b, loop_exit body b) \<in> set (edges (snd (visit_stmt (LoopStmt body) start b)))"
  "(loop_entry b, loop_end body b) \<in> (set (edges (snd (visit_stmt (LoopStmt body) start b))))\<^sup>*"
proof -
  let ?b1 = "snd (build_node ''loop_start'' True None b)"
  let ?res = "visit_stmts body (loop_entry b) ?b1"
  have "(loop_entry b, fst ?res) \<in> (set (edges (snd ?res)))\<^sup>*"
    using lowers_path(1) [OF visit_stmts_lowers [of "loop_entry b" ?b1 body]] .
  moreover have "set (edges (snd ?res)) \<subseteq> set (edges (snd (visit_stmt (LoopStmt body) start b)))"
    by (auto simp: visit_loop_state simp del: visit_stmt.simps)
  ultimately show "(loop_entry b, loop_end body b) \<in> (set (edges (snd (visit_stmt (LoopStmt body) start b))))\<^sup>*"
    unfolding loop_end_def using rtrancl_mono by blast
qed (simp_all add: visit_loop_state del: visit_stmt.simps)

text \<open>
  Claim C5: for every visit of a loop statement made while a program is lowered, the
  graph has the entry node, marked as a widening point, an edge from the node the visit
  starts from to the entry, a path from the entry to the node the body's lowering ends
  in, the back edge from that node to the entry, and an edge from the entry to the
  synthesized \<open>loop_join\<close> node, which is no widening point. In the whole graph a
  node is a widening point if and only if it is the entry node of such a visit.
\<close>

theorem loop_lowering_and_widening_points:
  "(\<forall>body start b. (LoopStmt body, start, b) \<in> set (visits_program prgm b0) \<longrightarrow>
      is_widening_point (loop_entry b) \<and>
      loop_entry b \<in> set (graph_nodes (visit_program prgm b0)) \<and>
      (start, loop_entry b) \<in> set (graph_edges (visit_program prgm b0)) \<and>
      (loop_entry b, loop_end body b) \<in> (set (graph_edges (visit_program prgm b0)))\<^sup>* \<and>
      (loop_end body b, loop_entry b) \<in> set (graph_edges (visit_program prgm b0)) \<and>
      (loop_entry b, loop_exit body b) \<in> set (graph_edges (visit_program prgm b0)) \<and>
      loop_exit body b \<in> set (graph_nodes (visit_program prgm b0)) \<and>
      fst (name (loop_exit body b)) = ''loop_join'' \<and>
      node (loop_exit body b) = None \<and>
      \<not> is_widening_point (loop_exit body b)) \<and>
   (\<forall>n \<in> set (graph_nodes (visit_program prgm b0)).
      is_widening_point n \<longleftrightarrow>
      (\<exists>body start b. (LoopStmt body, start, b) \<in> set (visits_program prgm b0) \<and> n = loop_entry b))"
proof -
  let ?start = "fst (start_of b0)" and ?s0 = "snd (start_of b0)"
  let ?res = "visit_stmts (stmts prgm) ?start ?s0"
  let ?G = "visit_program prgm b0"
  have G: "?G = Digraph (nodes (snd ?res) @ [?start]) (edges (snd ?res))"
    by (simp add: visit_program_def case_prod_unfold)
  have wp: "is_widening_point (loop_entry b)" for b :: "'a cfg_builder"
    by (simp add: loop_entry_def)
  have ex: "fst (name (loop_exit body b)) = ''loop_join'' \<and> node (loop_exit body b) = None \<and>
      \<not> is_widening_point (loop_exit body b)" for body and b :: "'a cfg_builder"
    by (simp add: loop_exit_def)
  have part1: "loop_entry b \<in> set (graph_nodes ?G) \<and>
      (start, loop_entry b) \<in> set (graph_edges ?G) \<and>
      (loop_entry b, loop_end body b) \<in> (set (graph_edges ?G))\<^sup>* \<and>
      (loop_end body b, loop_entry b) \<in> set (graph_edges ?G) \<and>
      (loop_entry b, loop_exit body b) \<in> set (graph_edges ?G) \<and>
      loop_exit body b \<in> set (graph_nodes ?G)"
    if v: "(LoopStmt body, start, b) \<in> set (visits_program prgm b0)" for body start b
  proof -
    from v have "(LoopStmt body, start, b) \<in> set (visits_stmts (stmts prgm) ?start ?s0)"
      by (simp add: visits_program_def)
    from visits_stmts_within [OF this]
    have n: "set (nodes (snd (visit_stmt (LoopStmt body) start b))) \<subseteq> set (graph_nodes ?G)"
      and e: "set (edges (snd (visit_stmt (LoopStmt body) start b))) \<subseteq> set (graph_edges ?G)"
      by (auto simp: G)
    from loop_local(6) [where b = b and body = body and start = start] rtrancl_mono [OF e]
    have "(loop_entry b, loop_end body b) \<in> (set (graph_edges ?G))\<^sup>*" by blast
    with n e loop_local(1-5) [where b = b and body = body and start = start]
    show ?thesis by blast
  qed
  have part2: "is_widening_point n \<longleftrightarrow>
      (\<exists>body start b. (LoopStmt body, start, b) \<in> set (visits_program prgm b0) \<and> n = loop_entry b)"
    if n: "n \<in> set (graph_nodes ?G)" for n
  proof
    assume w: "is_widening_point n"
    have "\<not> is_widening_point ?start" by (simp add: start_of_def)
    with n w have "n \<in> set (nodes (snd ?res))" by (auto simp: G)
    from widening_stmts_from_loop [OF this w]
    show "\<exists>body start b. (LoopStmt body, start, b) \<in> set (visits_program prgm b0) \<and> n = loop_entry b"
      by (simp add: visits_program_def start_of_def)
  next
    assume "\<exists>body start b. (LoopStmt body, start, b) \<in> set (visits_program prgm b0) \<and> n = loop_entry b"
    then show "is_widening_point n" using wp by auto
  qed
  show ?thesis using wp ex part1 part2 by blast
qed

theorem loop_lowering_and_widening_points_witness:
  "(LoopStmt [AssumeStmt ex_eq, AssignStmt ex_x ex_lit], ex_read_node, ex_loop_state)
     \<in> set (visits_program ex_loop_prog ex_builder) \<and>
   loop_entry ex_loop_state = ex_loop_start \<and>
   loop_exit [AssumeStmt ex_eq, AssignStmt ex_x ex_lit] ex_loop_state = ex_loop_join \<and>
   is_widening_point ex_loop_start \<and>
   ex_loop_start \<in> set (graph_nodes (visit_program ex_loop_prog ex_builder)) \<and>
   (ex_read_node, ex_loop_start) \<in> set (graph_edges (visit_program ex_loop_prog ex_builder)) \<and>
   (ex_loop_start, ex_loop_join) \<in> set (graph_edges (visit_program ex_loop_prog ex_builder)) \<and>
   ex_read_node \<in> set (graph_nodes (visit_program ex_loop_prog ex_builder)) \<and>
   \<not> is_widening_point ex_read_node"
proof -
  have a: "(LoopStmt [AssumeStmt ex_eq, AssignStmt ex_x ex_lit], ex_read_node, ex_loop_state)
     \<in> set (visits_program ex_loop_prog ex_builder)"
    by (simp add: visits_program_def ex_loop_prog_def ex_builder_def start_of_def case_prod_unfold
        ex_read_node_def ex_loop_state_def ex_start_def fun_upd_twist)
  have b: "loop_entry ex_loop_state = ex_loop_start"
    by (simp add: loop_entry_def ex_loop_state_def ex_loop_start_def)
  have c: "loop_exit [AssumeStmt ex_eq, AssignStmt ex_x ex_lit] ex_loop_state = ex_loop_join"
    by (simp add: loop_exit_def loop_entry_def ex_loop_state_def ex_loop_join_def case_prod_unfold)
  have d: "ex_read_node \<in> set (graph_nodes (visit_program ex_loop_prog ex_builder))"
    by (simp add: visit_program_def ex_loop_prog_def ex_builder_def start_of_def case_prod_unfold
        ex_read_node_def)
  have e: "\<not> is_widening_point ex_read_node" by (simp add: ex_read_node_def)
  show ?thesis
    using a b c d e loop_lowering_and_widening_points [of ex_loop_prog ex_builder] by metis
qed

text \<open>
  Claim C6: the graph of every program contains the start node; every node of the graph
  is reachable from it; a node of the graph has no incoming edge if and only if it is the
  start node; and both ends of every edge are nodes of the graph.
\<close>

theorem cfg_single_entry_all_reachable:
  "fst (start_of b) \<in> set (graph_nodes (visit_program prgm b)) \<and>
   (\<forall>n \<in> set (graph_nodes (visit_program prgm b)).
      (fst (start_of b), n) \<in> (set (graph_edges (visit_program prgm b)))\<^sup>*) \<and>
   (\<forall>n \<in> set (graph_nodes (visit_program prgm b)).
      (\<forall>m. (m, n) \<notin> set (graph_edges (visit_program prgm b))) \<longleftrightarrow> n = fst (start_of b)) \<and>
   (\<forall>e \<in> set (graph_edges (visit_program prgm b)).
      fst e \<in> set (graph_nodes (visit_program prgm b)) \<and>
      snd e \<in> set (graph_nodes (visit_program prgm b)))"
proof -
  let ?start = "fst (start_of b)" and ?b0 = "snd (start_of b)"
  let ?res = "visit_stmts (stmts prgm) ?start ?b0"
  let ?E = "set (edges (snd ?res))"
  have G: "visit_program prgm b = Digraph (nodes (snd ?res) @ [?start]) (edges (snd ?res))"
    by (simp add: visit_program_def case_prod_unfold)
  have empty: "nodes ?b0 = []" "edges ?b0 = []" by (simp_all add: start_of_def)
  have nm: "fst (name ?start) = ''start''" by (simp add: start_of_def)
  have low: "lowers ?start ?b0 ?res" by (rule visit_stmts_lowers)
  have reach: "(?start, n) \<in> ?E\<^sup>+" if "n \<in> set (nodes (snd ?res))" for n
    using low that empty by (auto simp: lowers_def)
  have edg: "fst (name (snd e)) \<noteq> ''start'' \<and> snd e \<in> set (nodes (snd ?res)) \<and>
        (fst e = ?start \<or> fst e \<in> set (nodes (snd ?res)))" if "e \<in> ?E" for e
    using low that empty by (auto simp: lowers_def)
  have no_in: "(m, ?start) \<notin> ?E" for m
    using edg [of "(m, ?start)"] nm by auto
  have has_in: "\<exists>m. (m, n) \<in> ?E" if "n \<in> set (nodes (snd ?res))" for n
    using reach [OF that] by (meson tranclD2)
  have a: "?start \<in> set (graph_nodes (visit_program prgm b))" by (simp add: G)
  have b: "(?start, n) \<in> (set (graph_edges (visit_program prgm b)))\<^sup>*"
    if "n \<in> set (graph_nodes (visit_program prgm b))" for n
    using that reach [of n] by (auto simp: G)
  have c: "(\<forall>m. (m, n) \<notin> set (graph_edges (visit_program prgm b))) \<longleftrightarrow> n = ?start"
    if "n \<in> set (graph_nodes (visit_program prgm b))" for n
    using that no_in has_in [of n] by (auto simp: G)
  have d: "fst e \<in> set (graph_nodes (visit_program prgm b)) \<and>
      snd e \<in> set (graph_nodes (visit_program prgm b))"
    if "e \<in> set (graph_edges (visit_program prgm b))" for e
    using that edg [of e] by (auto simp: G)
  show ?thesis using a b c d by blast
qed

theorem cfg_single_entry_all_reachable_witness:
  "ex_loop_join \<in> set (graph_nodes (visit_program ex_loop_prog ex_builder)) \<and>
   name (fst (start_of ex_builder)) = (''start'', 0) \<and>
   (fst (start_of ex_builder), ex_loop_join) \<in> (set (graph_edges (visit_program ex_loop_prog ex_builder)))\<^sup>* \<and>
   ex_loop_join \<noteq> fst (start_of ex_builder) \<and>
   \<not> (\<forall>m. (m, ex_loop_join) \<notin> set (graph_edges (visit_program ex_loop_prog ex_builder)))"
proof -
  have a: "ex_loop_join \<in> set (graph_nodes (visit_program ex_loop_prog ex_builder))"
    by (simp add: visit_program_def ex_loop_prog_def ex_builder_def start_of_def case_prod_unfold
        ex_loop_join_def)
  have b: "name (fst (start_of ex_builder)) = (''start'', 0)"
    by (simp add: start_of_def ex_builder_def)
  have c: "ex_loop_join \<noteq> fst (start_of ex_builder)"
    by (simp add: start_of_def ex_builder_def ex_loop_join_def)
  show ?thesis
    using a b c cfg_single_entry_all_reachable [of ex_builder ex_loop_prog] by blast
qed

section \<open>Conditionals: from the frontend to the graph\<close>

text \<open>
  Every statement list that the frontend returns is \<open>seeded\<close>: by induction along
  \<open>transform_expr\<close>, for any continuation that returns seeded statements, and then
  along the statements and declarations.
\<close>

lemma transform_expr_seeded:
  "(\<And>e r. ctx e = Inr r \<Longrightarrow> \<forall>s \<in> set r. seeded s) \<Longrightarrow>
   transform_expr vd x ctx = Inr r \<Longrightarrow> \<forall>s \<in> set r. seeded s"
proof (induction vd x ctx arbitrary: r rule: transform_expr.induct)
  case (1 vd e ctx)
  then show ?case by simp
next
  case (2 vd l op r' h ctx)
  have inner: "\<forall>s \<in> set q. seeded s"
    if "transform_expr vd r' (\<lambda>rhs. case transform_operator op 2 of Inl x \<Rightarrow> Inl x
                 | Inr symbol \<Rightarrow> ctx (BinExpr lhs symbol rhs (Some h))) = Inr q" for lhs q
    using that
  proof (rule "2.IH"(1) [rotated])
    fix e q' assume "(case transform_operator op 2 of Inl x \<Rightarrow> Inl x
                 | Inr symbol \<Rightarrow> ctx (BinExpr lhs symbol e (Some h))) = Inr q'"
    then show "\<forall>s \<in> set q'. seeded s" using "2.prems"(1) by (auto split: sum.splits)
  qed
  from "2.prems"(2) show ?case
    by (simp only: transform_expr.simps, elim "2.IH"(2) [rotated]) (rule inner)
next
  case (3 vd op x h ctx)
  from "3.prems"(2) show ?case
  proof (simp only: transform_expr.simps, elim "3.IH" [rotated])
    fix e q assume "(case transform_operator op 1 of Inl x \<Rightarrow> Inl x
         | Inr symbol \<Rightarrow> ctx (UnExpr symbol e (Some h))) = Inr q"
    then show "\<forall>s \<in> set q. seeded s" using "3.prems"(1) by (auto split: sum.splits)
  qed
next
  case (4 vd c t el ctx)
  have in_else: "\<forall>s \<in> set q. seeded s"
    if "(case type_hint cond of None \<Rightarrow> Inl AttributeError
                | Some hint \<Rightarrow>
                    case ctx thn of Inl x \<Rightarrow> Inl x
                    | Inr then_rest \<Rightarrow>
                        case ctx els of Inl x \<Rightarrow> Inl x
                        | Inr else_rest \<Rightarrow>
                            Inr [SplitStmt (AssumeStmt cond # then_rest)
                                  (AssumeStmt (UnExpr ''!'' cond (Some hint)) # else_rest)]) = Inr q"
    for cond thn els q
    using that "4.prems"(1) by (auto split: option.splits sum.splits)
  have in_then: "\<forall>s \<in> set q. seeded s"
    if "(case el of None \<Rightarrow> Inl AttributeError
                 | Some f_else_expr \<Rightarrow>
                     transform_expr vd f_else_expr
                      (\<lambda>els. case type_hint cond of None \<Rightarrow> Inl AttributeError
                             | Some hint \<Rightarrow>
                                 case ctx thn of Inl x \<Rightarrow> Inl x
                                 | Inr then_rest \<Rightarrow>
                                     case ctx els of Inl x \<Rightarrow> Inl x
                                     | Inr else_rest \<Rightarrow>
   Inr [SplitStmt (AssumeStmt cond # then_rest)
         (AssumeStmt (UnExpr ''!'' cond (Some hint)) # else_rest)])) = Inr q"
    for cond thn q
  proof (cases el)
    case None
    with that show ?thesis by simp
  next
    case (Some e2)
    with that show ?thesis
      by (simp only: option.simps, elim "4.IH"(1) [OF Some, rotated]) (rule in_else)
  qed
  have in_cond: "\<forall>s \<in> set q. seeded s"
    if "transform_expr vd t (\<lambda>thn. case el of None \<Rightarrow> Inl AttributeError
                 | Some f_else_expr \<Rightarrow>
                     transform_expr vd f_else_expr
                      (\<lambda>els. case type_hint cond of None \<Rightarrow> Inl AttributeError
                             | Some hint \<Rightarrow>
                                 case ctx thn of Inl x \<Rightarrow> Inl x
                                 | Inr then_rest \<Rightarrow>
                                     case ctx els of Inl x \<Rightarrow> Inl x
                                     | Inr else_rest \<Rightarrow>
   Inr [SplitStmt (AssumeStmt cond # then_rest)
         (AssumeStmt (UnExpr ''!'' cond (Some hint)) # else_rest)])) = Inr q"
    for cond q
    using that by (elim "4.IH"(2) [rotated]) (rule in_then)
  from "4.prems"(2) show ?case
    by (simp only: transform_expr.simps, elim "4.IH"(3) [rotated]) (rule in_cond)
next
  case (5 vd nm ref ctx)
  then show ?case by (auto split: lal_ref.splits option.splits)
next
  case (6 vd nm h ctx)
  then show ?case by (auto split: sum.splits)
next
  case (7 vd h ctx)
  then show ?case by auto
next
  case (8 vd p h ctx)
  from "8.prems"(2) show ?case
    by (simp only: transform_expr.simps, elim "8.IH" [rotated]) (rule "8.prems"(1))
next
  case (9 vd p attribute h ctx)
  show ?case
  proof (cases "attribute = ''Access''")
    case True
    with "9.prems"(2)
    have "transform_expr vd p (\<lambda>prefix. ctx (UnExpr ''&'' prefix (Some h))) = Inr r" by simp
    then show ?thesis
      by (elim "9.IH" [OF True, rotated]) (rule "9.prems"(1))
  next
    case False
    with "9.prems"(2) show ?thesis by simp
  qed
next
  case (10 vd ctx)
  then show ?case by simp
qed


lemma transform_stmt_seeded:
  "transform_stmt vd s = Inr r \<Longrightarrow> \<forall>x \<in> set r. seeded x"
  and transform_stmts_seeded:
  "transform_stmts vd ss = Inr r \<Longrightarrow> \<forall>x \<in> set r. seeded x"
proof (induction vd s and vd ss arbitrary: r and r rule: transform_stmt_transform_stmts.induct)
  case (1 vd dest_text dest_ref f_expr)
  from "1.prems" show ?case
    by (simp only: transform_stmt.simps, elim transform_expr_seeded [rotated])
       (auto split: lal_ref.splits option.splits)
next
  case (2 vd f_cond_expr f_then_stmts f_else_stmts)
  from "2.prems" show ?case
  proof (simp only: transform_stmt.simps, elim transform_expr_seeded [rotated])
    fix cond q
    assume a: "(case type_hint cond of None \<Rightarrow> Inl AttributeError
        | Some hint \<Rightarrow>
          (case transform_stmts vd f_then_stmts of Inl e \<Rightarrow> Inl e
           | Inr then_rest \<Rightarrow>
             (case transform_stmts vd f_else_stmts of Inl e \<Rightarrow> Inl e
              | Inr else_rest \<Rightarrow>
                  Inr [SplitStmt (AssumeStmt cond # then_rest)
                         (AssumeStmt (UnExpr ''!'' cond (Some hint)) # else_rest)]))) = Inr q"
    then obtain hint then_rest else_rest where h: "type_hint cond = Some hint"
      and t: "transform_stmts vd f_then_stmts = Inr then_rest"
      and e: "transform_stmts vd f_else_stmts = Inr else_rest"
      and q: "q = [SplitStmt (AssumeStmt cond # then_rest)
                         (AssumeStmt (UnExpr ''!'' cond (Some hint)) # else_rest)]"
      by (auto split: option.splits sum.splits)
    from "2.IH"(1) [OF h t] "2.IH"(2) [OF h t e] h q
    show "\<forall>x \<in> set q. seeded x" by simp
  qed
next
  case (3 vd)
  then show ?case by simp
next
  case (4 vd loop_stmts)
  then show ?case by (auto split: sum.splits)
next
  case (5 vd f_expr loop_stmts)
  from "5.prems" show ?case
  proof (simp only: transform_stmt.simps, elim transform_expr_seeded [rotated])
    fix cond q
    assume "(case transform_stmts vd loop_stmts of Inl e \<Rightarrow> Inl e
        | Inr body \<Rightarrow> Inr [LoopStmt (AssumeStmt cond # body)]) = Inr q"
    then obtain body where "transform_stmts vd loop_stmts = Inr body"
      "q = [LoopStmt (AssumeStmt cond # body)]" by (auto split: sum.splits)
    with "5.IH" show "\<forall>x \<in> set q. seeded x" by simp
  qed
next
  case (6 vd) then show ?case by simp
next
  case (7 vd) then show ?case by simp
next
  case (8 vd) then show ?case by simp
next
  case (9 vd) then show ?case by simp
next
  case (10 vd stmt rest)
  then show ?case by (auto split: sum.splits)
qed

lemma transform_decl_seeded:
  assumes "transform_decl d vd = (Inr r, vd')"
  shows "\<forall>x \<in> set r. seeded x"
proof (cases d)
  case TypeDecl
  with assms show ?thesis by auto
next
  case EnumTypeDecl
  with assms show ?thesis by auto
next
  case OtherDecl
  with assms show ?thesis by auto
next
  case (ObjectDecl decl f_ids tdecl f_default_expr)
  show ?thesis
  proof (cases f_default_expr)
    case None
    with ObjectDecl assms show ?thesis
      by (auto simp: Let_def split: sum.splits)
  next
    case (Some x)
    with ObjectDecl assms obtain vd1 where
      "transform_expr vd1 x (\<lambda>def_val.
                 (case lookup_vars vd1 decl f_ids of Inl e \<Rightarrow> Inl e
                  | Inr vs \<Rightarrow> Inr (map (\<lambda>v. AssignStmt v def_val) vs))) = Inr r"
      by (auto simp: Let_def)
    then show ?thesis
      by (elim transform_expr_seeded [rotated]) (auto split: sum.splits)
  qed
qed

lemma transform_decls_seeded:
  "transform_decls ds vd = (Inr r, vd') \<Longrightarrow> \<forall>x \<in> set r. seeded x"
proof (induction ds arbitrary: vd r vd')
  case Nil
  then show ?case by simp
next
  case (Cons d ds)
  from Cons.prems obtain r1 vd1 r2 where d: "transform_decl d vd = (Inr r1, vd1)"
    and ds: "transform_decls ds vd1 = (Inr r2, vd')" and r: "r = r1 @ r2"
    by (auto split: prod.splits sum.splits)
  from transform_decl_seeded [OF d] Cons.IH [OF ds] r show ?case by auto
qed

lemma gen_ir_seeded:
  assumes "gen_ir subp = Inr prgm"
  shows "\<forall>x \<in> set (stmts prgm). seeded x"
proof -
  from assms obtain ds vd body where d: "transform_decls (f_decls subp) Map.empty = (Inr ds, vd)"
    and b: "transform_stmts vd (f_stmts subp) = Inr body" and p: "prgm = Program (ds @ body)"
    by (auto simp: gen_ir_def split: prod.splits sum.splits)
  from transform_decls_seeded [OF d] transform_stmts_seeded [OF b] p show ?thesis by auto
qed

lemma visits_stmt_seeded:
  "(s0, c0, b0) \<in> set (visits_stmt s cur b) \<Longrightarrow> seeded s \<Longrightarrow> seeded s0"
  and visits_stmts_seeded:
  "(s0, c0, b0) \<in> set (visits_stmts ss cur b) \<Longrightarrow> \<forall>x \<in> set ss. seeded x \<Longrightarrow> seeded s0"
  by (induction s cur b and ss cur b rule: visits_stmt_visits_stmts.induct) auto

lemma visit_assume_state:
  "fst (visit_stmt (AssumeStmt e) start b) =
     \<lparr>name = (''assume'', key_counter b ''assume''), is_widening_point = False,
      node = Some (AssumeStmt e)\<rparr>"
  "(start, fst (visit_stmt (AssumeStmt e) start b)) \<in> set (edges (snd (visit_stmt (AssumeStmt e) start b)))"
  "fst (visit_stmt (AssumeStmt e) start b) \<in> set (nodes (snd (visit_stmt (AssumeStmt e) start b)))"
  "key_counter (snd (visit_stmt (AssumeStmt e) start b)) ''assume'' = Suc (key_counter b ''assume'')"
  by (simp_all add: case_prod_unfold)

lemma branch_local:
  "(start, fst (visit_stmt (AssumeStmt e) start b))
     \<in> set (edges (snd (visit_stmts (AssumeStmt e # rest) start b)))"
  "fst (visit_stmt (AssumeStmt e) start b)
     \<in> set (nodes (snd (visit_stmts (AssumeStmt e # rest) start b)))"
  "(fst (visit_stmt (AssumeStmt e) start b), fst (visit_stmts (AssumeStmt e # rest) start b))
     \<in> (set (edges (snd (visit_stmts (AssumeStmt e # rest) start b))))\<^sup>*"
  "key_counter b ''assume'' < key_counter (snd (visit_stmts (AssumeStmt e # rest) start b)) ''assume''"
proof -
  let ?a = "fst (visit_stmt (AssumeStmt e) start b)"
  let ?b1 = "snd (visit_stmt (AssumeStmt e) start b)"
  let ?res = "visit_stmts (AssumeStmt e # rest) start b"
  have res: "?res = visit_stmts rest ?a ?b1"
    by (simp only: visit_stmts_Cons_state)
  have low: "lowers ?a ?b1 ?res" unfolding res by (rule visit_stmts_lowers)
  show "(start, ?a) \<in> set (edges (snd ?res))"
    using lowers_mono(2) [OF low] visit_assume_state(2) [of start e b] by blast
  show "?a \<in> set (nodes (snd ?res))"
    using lowers_mono(1) [OF low] visit_assume_state(3) [of e start b] by blast
  show "(?a, fst ?res) \<in> (set (edges (snd ?res)))\<^sup>*" using lowers_path(1) [OF low] .
  have "key_counter ?b1 ''assume'' \<le> key_counter (snd ?res) ''assume''"
    using lowers_mono(3) [OF low] .
  then show "key_counter b ''assume'' < key_counter (snd ?res) ''assume''"
    unfolding visit_assume_state(4) by simp
qed

lemma split_local:
  fixes b :: "'h cfg_builder" and start :: "'h cfg_node" and f g :: "'h stmt list"
  assumes f: "f = AssumeStmt c # rf" and g: "g = AssumeStmt nc # rg"
  defines "F \<equiv> snd (visit_stmt (SplitStmt f g) start b)"
  shows "node (split_fst_entry f start b) = Some (AssumeStmt c)"
    and "node (split_snd_entry f g start b) = Some (AssumeStmt nc)"
    and "split_fst_entry f start b \<noteq> split_snd_entry f g start b"
    and "(start, split_fst_entry f start b) \<in> set (edges F)"
    and "(start, split_snd_entry f g start b) \<in> set (edges F)"
    and "(split_fst_entry f start b, split_fst_end f start b) \<in> (set (edges F))\<^sup>*"
    and "(split_snd_entry f g start b, split_snd_end f g start b) \<in> (set (edges F))\<^sup>*"
    and "(split_fst_end f start b, split_join f g start b) \<in> set (edges F)"
    and "(split_snd_end f g start b, split_join f g start b) \<in> set (edges F)"
    and "split_join f g start b \<in> set (nodes F)"
    and "fst (name (split_join f g start b)) = ''split_join''"
    and "node (split_join f g start b) = None"
    and "\<not> is_widening_point (split_join f g start b)"
proof -
  let ?s1 = "snd (visit_stmts f start b)"
  let ?s2 = "snd (visit_stmts g start ?s1)"
  have a1: "split_fst_entry f start b = fst (visit_stmt (AssumeStmt c) start b)"
    by (simp add: split_fst_entry_def branch_entry_def f del: visit_stmt.simps)
  have a2: "split_snd_entry f g start b = fst (visit_stmt (AssumeStmt nc) start ?s1)"
    by (simp add: split_snd_entry_def branch_entry_def g del: visit_stmt.simps)
  have s12: "set (edges ?s1) \<subseteq> set (edges ?s2)"
    using lowers_mono(2) [OF visit_stmts_lowers [of start ?s1 g]] .
  have s2F: "set (edges ?s2) \<subseteq> set (edges F)"
    unfolding F_def by (auto simp: visit_split_state simp del: visit_stmt.simps)
  note bl1 = branch_local [where start = start and e = c and b = b and rest = rf, folded f a1]
  note bl2 = branch_local [where start = start and e = nc and b = ?s1 and rest = rg, folded g a2]
  show "node (split_fst_entry f start b) = Some (AssumeStmt c)"
    unfolding a1 visit_assume_state by simp
  show "node (split_snd_entry f g start b) = Some (AssumeStmt nc)"
    unfolding a2 visit_assume_state by simp
  show "split_fst_entry f start b \<noteq> split_snd_entry f g start b"
    unfolding a1 a2 visit_assume_state using bl1(4) by simp
  show "(start, split_fst_entry f start b) \<in> set (edges F)"
    using bl1(1) s12 s2F by blast
  show "(start, split_snd_entry f g start b) \<in> set (edges F)"
    using bl2(1) s2F by blast
  show "(split_fst_entry f start b, split_fst_end f start b) \<in> (set (edges F))\<^sup>*"
    unfolding split_fst_end_def using bl1(3) rtrancl_mono [OF subset_trans [OF s12 s2F]] by blast
  show "(split_snd_entry f g start b, split_snd_end f g start b) \<in> (set (edges F))\<^sup>*"
    unfolding split_snd_end_def using bl2(3) rtrancl_mono [OF s2F] by blast
  show "(split_fst_end f start b, split_join f g start b) \<in> set (edges F)"
    unfolding F_def split_fst_end_def split_join_def
    by (simp add: visit_split_state del: visit_stmt.simps)
  show "(split_snd_end f g start b, split_join f g start b) \<in> set (edges F)"
    unfolding F_def split_snd_end_def split_join_def
    by (simp add: visit_split_state del: visit_stmt.simps)
  show "split_join f g start b \<in> set (nodes F)"
    unfolding F_def split_join_def by (simp add: visit_split_state del: visit_stmt.simps)
  show "fst (name (split_join f g start b)) = ''split_join''"
    unfolding split_join_def by (simp add: visit_split_state del: visit_stmt.simps)
  show "node (split_join f g start b) = None"
    unfolding split_join_def by (simp add: visit_split_state del: visit_stmt.simps)
  show "\<not> is_widening_point (split_join f g start b)"
    unfolding split_join_def by (simp add: visit_split_state del: visit_stmt.simps)
qed

lemma seeded_headsD:
  "seeded_heads f g \<Longrightarrow>
     \<exists>c hint rf rg. f = AssumeStmt c # rf \<and> g = AssumeStmt (UnExpr ''!'' c (Some hint)) # rg"
  by (induction f g rule: seeded_heads.induct) auto

lemma seeded_split:
  assumes "seeded (SplitStmt f g)"
  shows "\<exists>c hint rf rg. f = AssumeStmt c # rf \<and> g = AssumeStmt (UnExpr ''!'' c (Some hint)) # rg"
  using assms seeded_headsD by auto

text \<open>
  Claim C3, for the split statements of a program that the frontend generated (the
  lowering of an Ada if-statement or if-expression): for every visit of such a split
  statement the node the visit starts from has an edge to each of two distinct assume
  nodes, the first for the condition and the second for its negation; from each of them
  a path leads to the end of its branch, and both branch ends have an edge to the one
  \<open>split_join\<close> node built for the statement. The assumptions are put there by the
  frontend; \<open>visit_split\<close> lowers the two statement lists of a split as they are.
\<close>

theorem split_branches_seeded_and_joined:
  assumes "gen_ir subp = Inr prgm"
    and "(SplitStmt f g, start, b) \<in> set (visits_program prgm b0)"
  shows "\<exists>c hint rf rg.
      f = AssumeStmt c # rf \<and> g = AssumeStmt (UnExpr ''!'' c (Some hint)) # rg \<and>
      node (split_fst_entry f start b) = Some (AssumeStmt c) \<and>
      node (split_snd_entry f g start b) = Some (AssumeStmt (UnExpr ''!'' c (Some hint))) \<and>
      split_fst_entry f start b \<noteq> split_snd_entry f g start b \<and>
      (start, split_fst_entry f start b) \<in> set (graph_edges (visit_program prgm b0)) \<and>
      (start, split_snd_entry f g start b) \<in> set (graph_edges (visit_program prgm b0)) \<and>
      (split_fst_entry f start b, split_fst_end f start b)
        \<in> (set (graph_edges (visit_program prgm b0)))\<^sup>* \<and>
      (split_snd_entry f g start b, split_snd_end f g start b)
        \<in> (set (graph_edges (visit_program prgm b0)))\<^sup>* \<and>
      (split_fst_end f start b, split_join f g start b) \<in> set (graph_edges (visit_program prgm b0)) \<and>
      (split_snd_end f g start b, split_join f g start b) \<in> set (graph_edges (visit_program prgm b0)) \<and>
      split_join f g start b \<in> set (graph_nodes (visit_program prgm b0)) \<and>
      fst (name (split_join f g start b)) = ''split_join'' \<and>
      node (split_join f g start b) = None"
proof -
  let ?start = "fst (start_of b0)" and ?s0 = "snd (start_of b0)"
  let ?res = "visit_stmts (stmts prgm) ?start ?s0"
  let ?G = "visit_program prgm b0"
  let ?F = "snd (visit_stmt (SplitStmt f g) start b)"
  have G: "?G = Digraph (nodes (snd ?res) @ [?start]) (edges (snd ?res))"
    by (simp add: visit_program_def case_prod_unfold)
  have v: "(SplitStmt f g, start, b) \<in> set (visits_stmts (stmts prgm) ?start ?s0)"
    using assms(2) by (simp add: visits_program_def)
  from visits_stmts_seeded [OF v gen_ir_seeded [OF assms(1)]]
  obtain c hint rf rg where f: "f = AssumeStmt c # rf"
    and g: "g = AssumeStmt (UnExpr ''!'' c (Some hint)) # rg"
    using seeded_split by blast
  from visits_stmts_within [OF v]
  have n: "set (nodes ?F) \<subseteq> set (graph_nodes ?G)" and e: "set (edges ?F) \<subseteq> set (graph_edges ?G)"
    by (auto simp: G)
  note loc = split_local [OF f g, of start b]
  have p1: "(split_fst_entry f start b, split_fst_end f start b) \<in> (set (graph_edges ?G))\<^sup>*"
    using loc(6) rtrancl_mono [OF e] by blast
  have p2: "(split_snd_entry f g start b, split_snd_end f g start b) \<in> (set (graph_edges ?G))\<^sup>*"
    using loc(7) rtrancl_mono [OF e] by blast
  show ?thesis
    using f g loc(1-5) loc(8-12) p1 p2 n e by blast
qed

theorem split_branches_seeded_and_joined_witness:
  "gen_ir ex_subp = Inr ex_split_prog \<and>
   (SplitStmt ex_then ex_else, ex_split_pred, ex_split_state)
      \<in> set (visits_program ex_split_prog ex_builder) \<and>
   name (split_fst_entry ex_then ex_split_pred ex_split_state) = (''assume'', 0) \<and>
   name (split_snd_entry ex_then ex_else ex_split_pred ex_split_state) = (''assume'', 1) \<and>
   name (split_join ex_then ex_else ex_split_pred ex_split_state) = (''split_join'', 0) \<and>
   (ex_split_pred, split_fst_entry ex_then ex_split_pred ex_split_state)
      \<in> set (graph_edges (visit_program ex_split_prog ex_builder)) \<and>
   (ex_split_pred, split_snd_entry ex_then ex_else ex_split_pred ex_split_state)
      \<in> set (graph_edges (visit_program ex_split_prog ex_builder)) \<and>
   split_join ex_then ex_else ex_split_pred ex_split_state
      \<in> set (graph_nodes (visit_program ex_split_prog ex_builder))"
proof -
  have a: "gen_ir ex_subp = Inr ex_split_prog"
    by (simp add: gen_ir_def ex_subp_def ex_split_prog_def ex_then_def ex_else_def ex_b_def)
  have b: "(SplitStmt ex_then ex_else, ex_split_pred, ex_split_state)
      \<in> set (visits_program ex_split_prog ex_builder)"
    by (simp add: visits_program_def ex_split_prog_def ex_builder_def start_of_def case_prod_unfold
        ex_split_pred_def ex_split_state_def ex_start_def fun_upd_twist)
  have c: "name (split_fst_entry ex_then ex_split_pred ex_split_state) = (''assume'', 0)"
    by (simp add: split_fst_entry_def branch_entry_def ex_then_def ex_split_state_def case_prod_unfold)
  have d: "name (split_snd_entry ex_then ex_else ex_split_pred ex_split_state) = (''assume'', 1)"
    by (simp add: split_snd_entry_def branch_entry_def ex_then_def ex_else_def ex_split_state_def
        case_prod_unfold)
  have e: "name (split_join ex_then ex_else ex_split_pred ex_split_state) = (''split_join'', 0)"
    by (simp add: split_join_def ex_then_def ex_else_def ex_split_state_def case_prod_unfold)
  from split_branches_seeded_and_joined [OF a b]
  have "(ex_split_pred, split_fst_entry ex_then ex_split_pred ex_split_state)
      \<in> set (graph_edges (visit_program ex_split_prog ex_builder)) \<and>
   (ex_split_pred, split_snd_entry ex_then ex_else ex_split_pred ex_split_state)
      \<in> set (graph_edges (visit_program ex_split_prog ex_builder)) \<and>
   split_join ex_then ex_else ex_split_pred ex_split_state
      \<in> set (graph_nodes (visit_program ex_split_prog ex_builder))" by blast
  with a b c d e show ?thesis by blast
qed

text \<open>
  The claim C3 as stated, for every split statement, fails: \<open>visit_split\<close> adds no
  assumption. The graph of the program that is one split statement with two empty
  branches has the join node and the start node only, with two edges from the start
  node to the join node and no assume node; and in the graph of the split statement
  with the branches \<open>read b\<close> and \<open>use b\<close> the first program points of the
  branches are the read node and the use node.
\<close>

theorem split_without_assumes_counterexample:
  "(SplitStmt [] [], ex_start, ex_start_state) \<in> set (visits_program ex_bare_split ex_builder) \<and>
   visit_program ex_bare_split ex_builder =
     Digraph [ex_split_join, ex_start] [(ex_start, ex_split_join), (ex_start, ex_split_join)] \<and>
   map node (graph_nodes (visit_program ex_bare_split ex_builder)) = [None, None] \<and>
   (SplitStmt [ReadStmt ex_b] [UseStmt ex_b], ex_start, ex_start_state)
      \<in> set (visits_program ex_plain_split ex_builder) \<and>
   node (split_fst_entry [ReadStmt ex_b] ex_start ex_start_state) = Some (ReadStmt ex_b) \<and>
   node (split_snd_entry [ReadStmt ex_b] [UseStmt ex_b] ex_start ex_start_state) =
     Some (UseStmt ex_b) \<and>
   (ex_start, split_fst_entry [ReadStmt ex_b] ex_start ex_start_state)
      \<in> set (graph_edges (visit_program ex_plain_split ex_builder)) \<and>
   (ex_start, split_snd_entry [ReadStmt ex_b] [UseStmt ex_b] ex_start ex_start_state)
      \<in> set (graph_edges (visit_program ex_plain_split ex_builder)) \<and>
   map node (graph_nodes (visit_program ex_plain_split ex_builder)) =
     [Some (ReadStmt ex_b), Some (UseStmt ex_b), None, None]"
proof -
  have a: "(SplitStmt [] [], ex_start, ex_start_state)
      \<in> set (visits_program ex_bare_split ex_builder)"
    by (simp add: visits_program_def ex_bare_split_def ex_builder_def start_of_def
        case_prod_unfold ex_start_state_def ex_start_def)
  have b: "visit_program ex_bare_split ex_builder =
     Digraph [ex_split_join, ex_start] [(ex_start, ex_split_join), (ex_start, ex_split_join)]"
    by (simp add: visit_program_def ex_bare_split_def ex_builder_def start_of_def
        case_prod_unfold ex_split_join_def ex_start_def)
  have c: "map node (graph_nodes (visit_program ex_bare_split ex_builder)) = [None, None]"
    unfolding b by (simp add: ex_split_join_def ex_start_def)
  have d: "(SplitStmt [ReadStmt ex_b] [UseStmt ex_b], ex_start, ex_start_state)
      \<in> set (visits_program ex_plain_split ex_builder)"
    by (simp add: visits_program_def ex_plain_split_def ex_builder_def start_of_def
        case_prod_unfold ex_start_state_def ex_start_def)
  have e: "node (split_fst_entry [ReadStmt ex_b] ex_start ex_start_state) = Some (ReadStmt ex_b)"
    by (simp add: split_fst_entry_def branch_entry_def case_prod_unfold)
  have f: "node (split_snd_entry [ReadStmt ex_b] [UseStmt ex_b] ex_start ex_start_state) =
     Some (UseStmt ex_b)"
    by (simp add: split_snd_entry_def branch_entry_def case_prod_unfold)
  have g: "(ex_start, split_fst_entry [ReadStmt ex_b] ex_start ex_start_state)
      \<in> set (graph_edges (visit_program ex_plain_split ex_builder))"
    by (simp add: visit_program_def ex_plain_split_def ex_builder_def start_of_def
        case_prod_unfold ex_start_state_def ex_start_def split_fst_entry_def branch_entry_def)
  have h: "(ex_start, split_snd_entry [ReadStmt ex_b] [UseStmt ex_b] ex_start ex_start_state)
      \<in> set (graph_edges (visit_program ex_plain_split ex_builder))"
    by (simp add: visit_program_def ex_plain_split_def ex_builder_def start_of_def
        case_prod_unfold ex_start_state_def ex_start_def split_snd_entry_def branch_entry_def)
  have i: "map node (graph_nodes (visit_program ex_plain_split ex_builder)) =
     [Some (ReadStmt ex_b), Some (UseStmt ex_b), None, None]"
    by (simp add: visit_program_def ex_plain_split_def ex_builder_def start_of_def
        case_prod_unfold)
  from a b c d e f g h i show ?thesis by (intro conjI)
qed
section \<open>Properties of Models\<close>

text \<open>
  The caches only grow, and a successful resolution leaves its result in the cache.
\<close>

lemma hint_to_type_memo:
  assumes "hint_to_type M hint s = (r, s1)"
  shows "hint_memo s \<subseteq>\<^sub>m hint_memo s1" and "type_memo s1 = type_memo s"
    and "r = Inr tpe \<Longrightarrow> hint_memo s1 hint = Some tpe"
  using assms
  by (auto simp: hint_to_type_def map_le_def split: option.splits prod.splits sum.splits)

lemma type_to_interp_memo:
  assumes "type_to_interp M tpe s = (r, s1)"
  shows "type_memo s \<subseteq>\<^sub>m type_memo s1" and "hint_memo s1 = hint_memo s"
    and "r = Inr interp \<Longrightarrow> type_memo s1 tpe = Some interp"
  using assms
  by (auto simp: type_to_interp_def map_le_def split: option.splits prod.splits sum.splits)

lemma typeable_to_interp_memo:
  assumes "typeable_to_interp M n s = (r, s1)"
  shows "hint_memo s \<subseteq>\<^sub>m hint_memo s1" and "type_memo s \<subseteq>\<^sub>m type_memo s1"
    and "r = Inr interp \<Longrightarrow>
           \<exists>hint tpe. type_hint n = Some hint \<and> hint_memo s1 hint = Some tpe \<and>
             type_memo s1 tpe = Some interp"
proof -
  show "hint_memo s \<subseteq>\<^sub>m hint_memo s1"
  proof (cases "type_hint n")
    case None
    with assms show ?thesis by (simp add: typeable_to_interp_def)
  next
    case (Some hint)
    obtain r0 s0 where h: "hint_to_type M hint s = (r0, s0)" by (cases "hint_to_type M hint s")
    show ?thesis
    proof (cases r0)
      case (Inl e)
      with assms Some h hint_to_type_memo(1) [OF h] show ?thesis
        by (simp add: typeable_to_interp_def)
    next
      case (Inr tpe)
      with assms Some h have t: "type_to_interp M tpe s0 = (r, s1)"
        by (simp add: typeable_to_interp_def)
      from hint_to_type_memo(1) [OF h] type_to_interp_memo(2) [OF t] show ?thesis by simp
    qed
  qed
  show "type_memo s \<subseteq>\<^sub>m type_memo s1"
  proof (cases "type_hint n")
    case None
    with assms show ?thesis by (simp add: typeable_to_interp_def)
  next
    case (Some hint)
    obtain r0 s0 where h: "hint_to_type M hint s = (r0, s0)" by (cases "hint_to_type M hint s")
    show ?thesis
    proof (cases r0)
      case (Inl e)
      with assms Some h hint_to_type_memo(2) [OF h] show ?thesis
        by (simp add: typeable_to_interp_def)
    next
      case (Inr tpe)
      with assms Some h have t: "type_to_interp M tpe s0 = (r, s1)"
        by (simp add: typeable_to_interp_def)
      from hint_to_type_memo(2) [OF h] type_to_interp_memo(1) [OF t] show ?thesis by simp
    qed
  qed
  show "\<exists>hint tpe. type_hint n = Some hint \<and> hint_memo s1 hint = Some tpe \<and>
             type_memo s1 tpe = Some interp" if r: "r = Inr interp"
  proof (cases "type_hint n")
    case None
    with assms r show ?thesis by (simp add: typeable_to_interp_def)
  next
    case (Some hint)
    obtain r0 s0 where h: "hint_to_type M hint s = (r0, s0)" by (cases "hint_to_type M hint s")
    show ?thesis
    proof (cases r0)
      case (Inl e)
      with assms Some h r show ?thesis by (simp add: typeable_to_interp_def)
    next
      case (Inr tpe)
      with assms Some h have t: "type_to_interp M tpe s0 = (r, s1)"
        by (simp add: typeable_to_interp_def)
      from hint_to_type_memo(3) [OF h Inr] type_to_interp_memo(2) [OF t]
      have "hint_memo s1 hint = Some tpe" by simp
      with type_to_interp_memo(3) [OF t r] Some show ?thesis by blast
    qed
  qed
qed

lemma map_le_Some: "m \<subseteq>\<^sub>m m' \<Longrightarrow> m k = Some v \<Longrightarrow> m' k = Some v"
  by (auto simp: map_le_def dom_def)

lemma resolved_mono:
  assumes "resolved s nd" and "hint_memo s \<subseteq>\<^sub>m hint_memo s1" and "type_memo s \<subseteq>\<^sub>m type_memo s1"
  shows "resolved s1 nd"
  unfolding resolved_def
proof (intro allI impI)
  fix n d assume "map_of nd n = Some d"
  with assms(1) obtain hint tpe defs inv_defs builder where
    a: "type_hint n = Some hint" "hint_memo s hint = Some tpe"
      "type_memo s tpe = Some (Some (d, defs, inv_defs, builder))"
    unfolding resolved_def by blast
  from assms(2) a(2) have "hint_memo s1 hint = Some tpe"
    by (rule map_le_Some)
  moreover from assms(3) a(3) have "type_memo s1 tpe = Some (Some (d, defs, inv_defs, builder))"
    by (rule map_le_Some)
  ultimately show "\<exists>hint tpe defs inv_defs builder. type_hint n = Some hint \<and>
      hint_memo s1 hint = Some tpe \<and> type_memo s1 tpe = Some (Some (d, defs, inv_defs, builder))"
    using a(1) by blast
qed

lemma collect_domains_resolved:
  "collect_domains M ns (nd, dps, idps, blds) s = (Inr (nd', dps', idps', blds'), s') \<Longrightarrow>
   resolved s nd \<Longrightarrow> resolved s' nd'"
proof (induction ns arbitrary: nd dps idps blds s)
  case Nil
  then show ?case by simp
next
  case (Cons n ns)
  obtain r s1 where t: "typeable_to_interp M n s = (r, s1)" by (cases "typeable_to_interp M n s")
  have "\<exists>d df idf bl. r = Inr (Some (d, df, idf, bl))"
  proof (cases r)
    case (Inl e)
    with Cons.prems(1) t show ?thesis by simp
  next
    case (Inr i)
    show ?thesis
    proof (cases i)
      case None
      with Cons.prems(1) t Inr show ?thesis by simp
    next
      case (Some q)
      with Inr show ?thesis by (cases q) auto
    qed
  qed
  then obtain d df idf bl where r: "r = Inr (Some (d, df, idf, bl))" by blast
  with Cons.prems(1) t
  have rest: "collect_domains M ns (AList.update n d nd, List.insert df dps, List.insert idf idps,
        AList.update d bl blds) s1 = (Inr (nd', dps', idps', blds'), s')"
    by simp
  from typeable_to_interp_memo(3) [OF t r]
  obtain hint tpe where h: "type_hint n = Some hint" "hint_memo s1 hint = Some tpe"
    "type_memo s1 tpe = Some (Some (d, df, idf, bl))" by blast
  have old: "resolved s1 nd"
    using Cons.prems(2) typeable_to_interp_memo(1,2) [OF t] by (rule resolved_mono)
  have "resolved s1 (AList.update n d nd)"
    unfolding resolved_def
  proof (intro allI impI)
    fix k e assume "map_of (AList.update n d nd) k = Some e"
    then have "(k = n \<and> e = d) \<or> (k \<noteq> n \<and> map_of nd k = Some e)"
      by (auto simp: update_conv' split: if_splits)
    then show "\<exists>hint tpe defs inv_defs builder. type_hint k = Some hint \<and>
      hint_memo s1 hint = Some tpe \<and> type_memo s1 tpe = Some (Some (e, defs, inv_defs, builder))"
    proof
      assume "k = n \<and> e = d"
      with h show ?thesis by blast
    next
      assume "k \<noteq> n \<and> map_of nd k = Some e"
      with old show ?thesis unfolding resolved_def by blast
    qed
  qed
  with rest show ?case by (rule Cons.IH)
qed

lemma models_visit_domain:
  assumes "models_visit nd defs invs blds n = Inr b"
  shows "map_of nd n = Some (bunch_domain b)"
proof (cases n)
  case (Identifier x h)
  with assms show ?thesis by (simp split: option.splits) auto
next
  case (Lit v h)
  with assms show ?thesis by (simp split: option.splits) auto
next
  case (UnExpr op e h)
  with assms show ?thesis
    by (simp split: option.splits sum.splits) auto
next
  case (BinExpr l op r h)
  with assms show ?thesis
    by (simp split: option.splits sum.splits) auto
qed

lemma build_model_domain:
  "build_model nd defs invs blds keys model = Inr model' \<Longrightarrow> map_of model' k = Some b \<Longrightarrow>
   map_of model k = Some b \<or> map_of nd k = Some (bunch_domain b)"
proof (induction keys arbitrary: model)
  case Nil
  then show ?case by simp
next
  case (Cons n keys)
  from Cons.prems(1) obtain entry where v: "models_visit nd defs invs blds n = Inr entry"
    and rest: "build_model nd defs invs blds keys (AList.update n entry model) = Inr model'"
    by (auto split: sum.splits)
  from Cons.IH [OF rest Cons.prems(2)]
  have "map_of (AList.update n entry model) k = Some b \<or> map_of nd k = Some (bunch_domain b)" .
  then show ?case
    using models_visit_domain [OF v] by (auto simp: update_conv' split: if_splits)
qed

text \<open>
  Claim C7: resolving a type hint a second time returns the instance of the first time
  and leaves the state as it is (the typer is not called again); the same holds for
  resolving a type; and in a model that \<open>of\<close> returns, two nodes with equal type hints
  have the same domain instance.
\<close>

theorem memo_shares_instances:
  "(hint_to_type M hint s = (Inr tpe, s1) \<longrightarrow> hint_to_type M hint s1 = (Inr tpe, s1)) \<and>
   (type_to_interp M tpe' s = (Inr interp, s2) \<longrightarrow> type_to_interp M tpe' s2 = (Inr interp, s2)) \<and>
   (models_of M programs s = (Inr model, s') \<longrightarrow>
      (\<forall>n1 n2 b1 b2. map_of model n1 = Some b1 \<longrightarrow> map_of model n2 = Some b2 \<longrightarrow>
         type_hint n1 = type_hint n2 \<longrightarrow> bunch_domain b1 = bunch_domain b2))"
proof (intro conjI impI allI)
  assume a: "hint_to_type M hint s = (Inr tpe, s1)"
  from hint_to_type_memo(3) [OF a refl] show "hint_to_type M hint s1 = (Inr tpe, s1)"
    by (simp add: hint_to_type_def)
next
  assume a: "type_to_interp M tpe' s = (Inr interp, s2)"
  from type_to_interp_memo(3) [OF a refl] show "type_to_interp M tpe' s2 = (Inr interp, s2)"
    by (simp add: type_to_interp_def)
next
  fix n1 n2 b1 b2
  assume m: "models_of M programs s = (Inr model, s')"
    and 1: "map_of model n1 = Some b1" and 2: "map_of model n2 = Some b2"
    and eq: "type_hint n1 = type_hint n2"
  from m obtain nd dps idps blds where
    c: "collect_domains M (concat (map (\<lambda>prog. findall prog has_type_hint) programs))
        ([], [], [], []) s = (Inr (nd, dps, idps, blds), s')"
    and b: "build_model nd (aggregate_provider dps) (aggregate_provider idps) blds (map fst nd) []
        = Inr model"
    by (auto simp: models_of_def split: prod.splits sum.splits)
  have "resolved s []" by (simp add: resolved_def)
  with c have res: "resolved s' nd" by (rule collect_domains_resolved)
  from build_model_domain [OF b 1] have d1: "map_of nd n1 = Some (bunch_domain b1)" by simp
  from build_model_domain [OF b 2] have d2: "map_of nd n2 = Some (bunch_domain b2)" by simp
  from res d1 obtain h1 t1 df1 idf1 bl1 where r1: "type_hint n1 = Some h1"
    "hint_memo s' h1 = Some t1" "type_memo s' t1 = Some (Some (bunch_domain b1, df1, idf1, bl1))"
    unfolding resolved_def by blast
  from res d2 obtain h2 t2 df2 idf2 bl2 where r2: "type_hint n2 = Some h2"
    "hint_memo s' h2 = Some t2" "type_memo s' t2 = Some (Some (bunch_domain b2, df2, idf2, bl2))"
    unfolding resolved_def by blast
  from r1(1) r2(1) eq have "h1 = h2" by simp
  with r1(2) r2(2) have "t1 = t2" by simp
  with r1(3) r2(3) show "bunch_domain b1 = bunch_domain b2" by simp
qed

lemma ex_assign_eval: "fst (models_of ex_models [ex_assign_prog] ex_memo) = Inr ex_assign_model"
  by (simp add: models_of_def findall_def has_type_hint_def ex_assign_prog_def ex_b_def
      ex_false_def typeable_to_interp_def hint_to_type_def type_to_interp_def ex_models_def
      ex_memo_def ex_assign_model_def)

theorem memo_shares_instances_witness:
  "fst (models_of ex_models [ex_assign_prog] ex_memo) = Inr ex_assign_model \<and>
   map_of ex_assign_model ex_b = Some (IdentBunch 1) \<and>
   map_of ex_assign_model ex_false = Some (LitBunch 1 ()) \<and>
   type_hint ex_b = type_hint ex_false \<and>
   bunch_domain (IdentBunch 1 :: (nat, unit, unit, unit) bunch) = bunch_domain (LitBunch 1 () :: (nat, unit, unit, unit) bunch) \<and>
   fst (typer ex_models () 0) \<noteq> fst (typer ex_models () 1)"
proof -
  have a: "models_of ex_models [ex_assign_prog] ex_memo =
      (Inr ex_assign_model, snd (models_of ex_models [ex_assign_prog] ex_memo))"
    using ex_assign_eval by (metis prod.collapse)
  have b: "map_of ex_assign_model ex_b = Some (IdentBunch 1)"
    by (simp add: ex_assign_model_def)
  have c: "map_of ex_assign_model ex_false = Some (LitBunch 1 ())"
    by (simp add: ex_assign_model_def ex_b_def ex_false_def)
  have d: "type_hint ex_b = type_hint ex_false" by (simp add: ex_b_def ex_false_def)
  have e: "fst (typer ex_models () 0) \<noteq> fst (typer ex_models () 1)"
    by (simp add: ex_models_def)
  from memo_shares_instances [where M = ex_models and programs = "[ex_assign_prog]"
      and s = ex_memo and model = ex_assign_model
      and s' = "snd (models_of ex_models [ex_assign_prog] ex_memo)"] a b c d
  have "bunch_domain (IdentBunch 1 :: (nat, unit, unit, unit) bunch) = bunch_domain (LitBunch 1 () :: (nat, unit, unit, unit) bunch)"
    by blast
  with ex_assign_eval b c d e show ?thesis by blast
qed

lemma aggregate_provider_none:
  "\<forall>p \<in> set ps. p nm sg = None \<Longrightarrow> aggregate_provider ps nm sg = Inl (LookupError nm sg)"
  by (induction ps) auto

lemma aggregate_provider_error:
  "aggregate_provider ps nm sg = Inl e \<Longrightarrow> e = LookupError nm sg"
  by (induction ps) (auto split: option.splits)

lemma requests_visit:
  assumes req: "requests nd n op sg"
    and none: "(\<forall>p \<in> set dps. p op sg = None) \<or> (\<forall>p \<in> set idps. p op sg = None)"
  shows "models_visit nd (aggregate_provider dps) (aggregate_provider idps) blds n
           = Inl (LookupError op sg)"
proof -
  have d: "aggregate_provider dps op sg = Inl (LookupError op sg) \<or>
      (\<exists>f. aggregate_provider dps op sg = Inr f) \<and>
      aggregate_provider idps op sg = Inl (LookupError op sg)"
  proof (cases "aggregate_provider dps op sg")
    case (Inl e)
    with aggregate_provider_error [OF Inl] show ?thesis by simp
  next
    case (Inr f)
    with none have "\<forall>p \<in> set idps. p op sg = None"
      using aggregate_provider_none [of dps op sg] by auto
    from aggregate_provider_none [OF this] Inr show ?thesis by simp
  qed
  show ?thesis
  proof (cases n)
    case (Identifier x h)
    with req show ?thesis by (simp add: requests_def)
  next
    case (Lit v h)
    with req show ?thesis by (simp add: requests_def)
  next
    case (UnExpr op' e h)
    with req obtain dmn expr_dom where "map_of nd (UnExpr op' e h) = Some dmn"
      "map_of nd e = Some expr_dom" "op = op'" "sg = [expr_dom, dmn]"
      by (auto simp: requests_def split: option.splits)
    with d UnExpr show ?thesis by auto
  next
    case (BinExpr l op' r h)
    with req obtain dmn lhs_dom rhs_dom where "map_of nd (BinExpr l op' r h) = Some dmn"
      "map_of nd l = Some lhs_dom" "map_of nd r = Some rhs_dom" "op = op'"
      "sg = [lhs_dom, rhs_dom, dmn]"
      by (auto simp: requests_def split: option.splits)
    with d BinExpr show ?thesis by auto
  qed
qed

lemma build_model_fails:
  "n \<in> set keys \<Longrightarrow> models_visit nd defs invs blds n = Inl e \<Longrightarrow>
   \<exists>e'. build_model nd defs invs blds keys model = Inl e'"
proof (induction keys arbitrary: model)
  case Nil
  then show ?case by simp
next
  case (Cons k keys)
  show ?case
  proof (cases "models_visit nd defs invs blds k")
    case (Inl e') then show ?thesis by simp
  next
    case (Inr entry)
    with Cons.prems have "n \<in> set keys" by auto
    from Cons.IH [OF this Cons.prems(2)] Inr show ?thesis by simp
  qed
qed

lemma build_model_first_failure:
  "n \<in> set keys \<Longrightarrow> models_visit nd defs invs blds n = Inl e \<Longrightarrow>
   \<forall>k \<in> set (takeWhile (\<lambda>k. k \<noteq> n) keys). \<exists>b. models_visit nd defs invs blds k = Inr b \<Longrightarrow>
   build_model nd defs invs blds keys model = Inl e"
proof (induction keys arbitrary: model)
  case Nil
  then show ?case by simp
next
  case (Cons k keys)
  show ?case
  proof (cases "k = n")
    case True
    with Cons.prems(2) show ?thesis by simp
  next
    case False
    with Cons.prems(3) obtain b where b: "models_visit nd defs invs blds k = Inr b" by auto
    from False Cons.prems(1) have "n \<in> set keys" by auto
    moreover from False Cons.prems(3)
    have "\<forall>k \<in> set (takeWhile (\<lambda>k. k \<noteq> n) keys). \<exists>b. models_visit nd defs invs blds k = Inr b"
      by auto
    ultimately have "build_model nd defs invs blds keys (AList.update k b model) = Inl e"
      using Cons.prems(2) by (intro Cons.IH)
    with b show ?thesis by simp
  qed
qed

text \<open>
  Claim C4: when the first loop of \<open>of\<close> has completed and the visit of a typed node
  asks for an operator at a signature for which no definition provider, or no inverse
  provider, returns a definition, that visit raises the \<open>LookupError\<close> for this
  operator and signature; \<open>of\<close> then raises and returns no model; and the error it
  raises is this one when no node visited earlier fails.
\<close>

theorem missing_provider_raises_lookup_error:
  assumes c: "collect_domains M (concat (map (\<lambda>prog. findall prog has_type_hint) programs))
        ([], [], [], []) s = (Inr (node_domains, def_providers, inv_def_providers, builders), s')"
    and n: "n \<in> set (map fst node_domains)"
    and req: "requests node_domains n op signature"
    and none: "(\<forall>p \<in> set def_providers. p op signature = None) \<or>
               (\<forall>p \<in> set inv_def_providers. p op signature = None)"
  shows "models_visit node_domains (aggregate_provider def_providers)
           (aggregate_provider inv_def_providers) builders n = Inl (LookupError op signature) \<and>
         (\<exists>e. fst (models_of M programs s) = Inl e) \<and>
         ((\<forall>k \<in> set (takeWhile (\<lambda>k. k \<noteq> n) (map fst node_domains)).
              \<exists>b. models_visit node_domains (aggregate_provider def_providers)
                     (aggregate_provider inv_def_providers) builders k = Inr b) \<longrightarrow>
          fst (models_of M programs s) = Inl (LookupError op signature))"
proof -
  let ?visit = "models_visit node_domains (aggregate_provider def_providers)
           (aggregate_provider inv_def_providers) builders"
  have v: "?visit n = Inl (LookupError op signature)" using req none by (rule requests_visit)
  have m: "fst (models_of M programs s) =
      build_model node_domains (aggregate_provider def_providers)
        (aggregate_provider inv_def_providers) builders (map fst node_domains) []"
    using c by (simp add: models_of_def)
  from build_model_fails [OF n v] have "\<exists>e. fst (models_of M programs s) = Inl e"
    unfolding m by blast
  moreover have "fst (models_of M programs s) = Inl (LookupError op signature)"
    if "\<forall>k \<in> set (takeWhile (\<lambda>k. k \<noteq> n) (map fst node_domains)). \<exists>b. ?visit k = Inr b"
    unfolding m using n v that by (rule build_model_first_failure)
  ultimately show ?thesis using v by blast
qed

lemma ex_collect_eval:
  "fst (collect_domains ex_models (concat (map (\<lambda>prog. findall prog has_type_hint) [ex_assume_prog]))
        ([], [], [], []) ex_memo) = Inr (ex_node_domains, [ex_no_provider], [ex_no_provider], [(1, ())])"
  by (simp add: findall_def has_type_hint_def ex_assume_prog_def ex_b_def ex_not_b_def
      typeable_to_interp_def hint_to_type_def type_to_interp_def ex_models_def
      ex_memo_def ex_node_domains_def)

theorem missing_provider_raises_lookup_error_witness:
  "ex_not_b \<in> set (map fst ex_node_domains) \<and>
   requests ex_node_domains ex_not_b ''!'' [1, 1] \<and>
   ex_no_provider ''!'' [1, 1] = None \<and>
   fst (models_of ex_models [ex_assume_prog] ex_memo) = Inl (LookupError ''!'' [1, 1])"
proof -
  have c: "collect_domains ex_models (concat (map (\<lambda>prog. findall prog has_type_hint) [ex_assume_prog]))
        ([], [], [], []) ex_memo = (Inr (ex_node_domains, [ex_no_provider], [ex_no_provider], [(1, ())]),
        snd (collect_domains ex_models (concat (map (\<lambda>prog. findall prog has_type_hint) [ex_assume_prog]))
        ([], [], [], []) ex_memo))"
    using ex_collect_eval by (metis prod.collapse)
  have n: "ex_not_b \<in> set (map fst ex_node_domains)" by (simp add: ex_node_domains_def)
  have r: "requests ex_node_domains ex_not_b ''!'' [1, 1]"
    by (simp add: requests_def ex_node_domains_def ex_not_b_def ex_b_def)
  have p: "ex_no_provider ''!'' [1, 1] = None" by (simp add: ex_no_provider_def)
  then have none: "(\<forall>p \<in> set [ex_no_provider]. p ''!'' [1, 1] = None) \<or>
               (\<forall>p \<in> set [ex_no_provider]. p ''!'' [1, 1] = None)" by simp
  have first: "takeWhile (\<lambda>k. k \<noteq> ex_not_b) (map fst ex_node_domains) = []"
    by (simp add: ex_node_domains_def)
  from missing_provider_raises_lookup_error [OF c n r none]
  have "fst (models_of ex_models [ex_assume_prog] ex_memo) = Inl (LookupError ''!'' [1, 1])"
    unfolding first by simp
  with n r p show ?thesis by blast
qed

section \<open>Properties of the checkers\<close>

lemma singleton_with:
  assumes x: "x |\<in>| v"
  shows "(fcard v = 1 \<longleftrightarrow> v = {|x|}) \<and> (fcard v \<noteq> 1 \<longleftrightarrow> 1 < fcard v)"
proof -
  have xin: "x \<in> fset v" using x by simp
  have a: "fcard v = 1 \<longleftrightarrow> v = {|x|}"
  proof
    assume "fcard v = 1"
    then have "card (fset v) = 1" by (simp add: fcard.rep_eq)
    then obtain y where y: "fset v = {y}" by (rule card_1_singletonE)
    with xin have "fset v = {x}" by simp
    then have "fset v = fset {|x|}" by simp
    then show "v = {|x|}" by (simp only: fset_inject)
  next
    assume "v = {|x|}" then show "fcard v = 1" by (simp add: fcard.rep_eq)
  qed
  have "fcard v \<noteq> 0" unfolding fcard.rep_eq using xin by auto
  then have b: "fcard v \<noteq> 1 \<longleftrightarrow> 1 < fcard v" by arith
  from a b show ?thesis by simp
qed

lemma report_list:
  "map (\<lambda>(trace, purpose, val). (trace, g purpose, fcard val = 1))
     (filter (\<lambda>(trace, purpose, val). x |\<in>| val) vs) =
   concat (map (\<lambda>(trace, purpose, val).
      if x |\<in>| val then [(trace, g purpose, val = {|x|})] else []) vs)"
proof (induction vs)
  case Nil
  show ?case by simp
next
  case (Cons p vs)
  obtain trace purpose val where p: "p = (trace, purpose, val)" by (cases p)
  show ?case
  proof (cases "x |\<in>| val")
    case True
    from singleton_with [OF True] have "fcard val = 1 \<longleftrightarrow> val = {|x|}" by simp
    with True p Cons show ?thesis by simp
  next
    case False
    with p Cons show ?thesis by simp
  qed
qed

lemma derefed_values_set:
  "set (derefed_values c ev a) =
     {(trace, purpose, val). \<exists>n check_expr. (n, check_expr, purpose) \<in> set (c a) \<and>
        (trace, val) \<in> set (ev a n check_expr)}"
  by (auto simp: derefed_values_def) force

lemma exist_check_values_set:
  "set (exist_check_values c ev a) =
     {(trace, purpose, val). \<exists>n check_expr. (n, check_expr, purpose) \<in> set (c a) \<and>
        (trace, val) \<in> set (ev a n check_expr)}"
  by (auto simp: exist_check_values_def) force

lemma in_concat_map: "x \<in> set xs \<Longrightarrow> y \<in> set (f x) \<Longrightarrow> y \<in> set (concat (map f xs))"
  by auto

lemma variant_check_values_set:
  "set (variant_check_values cfg exist_check_of ancestors eval_at) =
     {(finsert n (fset_of_list trace), purpose, val) | n e purpose anc trace val.
        n \<in> set (graph_nodes cfg) \<and> node n = Some (AssumeStmt e) \<and>
        exist_check_of (AssumeStmt e) = Some purpose \<and>
        anc \<in> set (ancestors cfg n) \<and> (trace, val) \<in> set (eval_at anc e)}"
  (is "?L = ?R")
proof
  show "?L \<subseteq> ?R"
    by (auto simp: variant_check_values_def split: option.splits stmt.splits) metis
  show "?R \<subseteq> ?L"
  proof
    fix p assume "p \<in> ?R"
    then obtain n e purpose anc trace val where
      p: "p = (finsert n (fset_of_list trace), purpose, val)"
      and n: "n \<in> set (graph_nodes cfg)" and ast: "node n = Some (AssumeStmt e)"
      and pu: "exist_check_of (AssumeStmt e) = Some purpose"
      and an: "anc \<in> set (ancestors cfg n)" and tv: "(trace, val) \<in> set (eval_at anc e)"
      by blast
    let ?nodes_with_ast = "concat (map (\<lambda>n. case node n of None \<Rightarrow> []
        | Some ast_node \<Rightarrow> [(n, ast_node)]) (graph_nodes cfg))"
    let ?pick = "\<lambda>(n, ast_node). case ast_node of
                         AssumeStmt e \<Rightarrow>
                           (case exist_check_of ast_node of None \<Rightarrow> []
                            | Some purpose \<Rightarrow> [(n, e, purpose)])
                       | _ \<Rightarrow> []"
    let ?exist_checks = "concat (map ?pick ?nodes_with_ast)"
    let ?vals = "\<lambda>(n, e, purpose).
                    concat (map (\<lambda>anc.
                              map (\<lambda>(trace, val). (finsert n (fset_of_list trace), purpose, val))
                                (eval_at anc e))
                            (ancestors cfg n))"
    have "(n, AssumeStmt e) \<in> set (case node n of None \<Rightarrow> []
        | Some ast_node \<Rightarrow> [(n, ast_node)])" using ast by simp
    with n have A: "(n, AssumeStmt e) \<in> set ?nodes_with_ast" by (rule in_concat_map)
    have "(n, e, purpose) \<in> set (?pick (n, AssumeStmt e))" using pu by simp
    with A have B: "(n, e, purpose) \<in> set ?exist_checks" by (rule in_concat_map)
    have "p \<in> set (map (\<lambda>(trace, val). (finsert n (fset_of_list trace), purpose, val))
                                (eval_at anc e))"
      using tv p by force
    with an have "p \<in> set (concat (map (\<lambda>anc.
                              map (\<lambda>(trace, val). (finsert n (fset_of_list trace), purpose, val))
                                (eval_at anc e))
                            (ancestors cfg n)))" by (rule in_concat_map)
    then have "p \<in> set (?vals (n, e, purpose))" by simp
    with B have "p \<in> set (concat (map ?vals ?exist_checks))" by (rule in_concat_map)
    then show "p \<in> ?L" by (simp add: variant_check_values_def)
  qed
qed

text \<open>
  Claim C2: the pairs a checker looks at are the (trace, value) pairs that the evaluation
  of the checked expression yields at the assume nodes tagged with its purpose; for
  \<open>check_variants\<close> these are the nodes of the graph built from an assume statement
  with an \<open>ExistCheck\<close> purpose, the expression is evaluated at the ancestors of
  such a node and the node is added to the trace. Going through the pairs in order, each
  of the three checkers reports one finding for a pair whose value contains false and
  none for any other pair; the finding is flagged definite exactly when the value is the
  singleton of false, and when it is not so flagged the value has more than one element.
\<close>

theorem findings_iff_false_in_value:
  "set (derefed_values c ev a) =
     {(trace, purpose, val). \<exists>n check_expr. (n, check_expr, purpose) \<in> set (c a) \<and>
        (trace, val) \<in> set (ev a n check_expr)} \<and>
   diagnostics (find_null_derefs c ev a) =
     concat (map (\<lambda>(trace, purpose, val).
        if False |\<in>| val then [(trace, derefed_expr purpose, val = {|False|})] else [])
       (derefed_values c ev a)) \<and>
   set (exist_check_values c' ev' a') =
     {(trace, purpose, val). \<exists>n check_expr. (n, check_expr, purpose) \<in> set (c' a') \<and>
        (trace, val) \<in> set (ev' a' n check_expr)} \<and>
   diagnostics (find_invalid_accesses c' ev' a') =
     concat (map (\<lambda>(trace, purpose, val).
        if False |\<in>| val then [(trace, purpose, val = {|False|})] else [])
       (exist_check_values c' ev' a')) \<and>
   set (variant_check_values cfg exist_check_of ancestors eval_at) =
     {(finsert n (fset_of_list trace), purpose, val) | n e purpose anc trace val.
        n \<in> set (graph_nodes cfg) \<and> node n = Some (AssumeStmt e) \<and>
        exist_check_of (AssumeStmt e) = Some purpose \<and>
        anc \<in> set (ancestors cfg n) \<and> (trace, val) \<in> set (eval_at anc e)} \<and>
   infeasibles (check_variants an cfg exist_check_of ancestors eval_at FALSE) =
     concat (map (\<lambda>(trace, purpose, val).
        if FALSE |\<in>| val then [(trace, purpose, val = {|FALSE|})] else [])
       (variant_check_values cfg exist_check_of ancestors eval_at)) \<and>
   (\<forall>val. FALSE |\<in>| val \<longrightarrow>
      (val = {|FALSE|} \<longleftrightarrow> fcard val = 1) \<and> (val \<noteq> {|FALSE|} \<longleftrightarrow> 1 < fcard val))"
proof -
  have 1: "diagnostics (find_null_derefs c ev a) =
     concat (map (\<lambda>(trace, purpose, val).
        if False |\<in>| val then [(trace, derefed_expr purpose, val = {|False|})] else [])
       (derefed_values c ev a))"
    unfolding find_null_derefs_def results.sel by (rule report_list)
  have 2: "diagnostics (find_invalid_accesses c' ev' a') =
     concat (map (\<lambda>(trace, purpose, val).
        if False |\<in>| val then [(trace, purpose, val = {|False|})] else [])
       (exist_check_values c' ev' a'))"
    unfolding find_invalid_accesses_def results.sel by (rule report_list [where g = "\<lambda>p. p"])
  have 3: "infeasibles (check_variants an cfg exist_check_of ancestors eval_at FALSE) =
     concat (map (\<lambda>(trace, purpose, val).
        if FALSE |\<in>| val then [(trace, purpose, val = {|FALSE|})] else [])
       (variant_check_values cfg exist_check_of ancestors eval_at))"
    unfolding check_variants_def analysis_result.sel by (rule report_list [where g = "\<lambda>p. p"])
  have 4: "(val = {|FALSE|} \<longleftrightarrow> fcard val = 1) \<and> (val \<noteq> {|FALSE|} \<longleftrightarrow> 1 < fcard val)"
    if "FALSE |\<in>| val" for val
    using singleton_with [OF that] by auto
  have 5: "\<forall>val. FALSE |\<in>| val \<longrightarrow>
      (val = {|FALSE|} \<longleftrightarrow> fcard val = 1) \<and> (val \<noteq> {|FALSE|} \<longleftrightarrow> 1 < fcard val)"
    using 4 by blast
  show ?thesis
    by (rule conjI [OF derefed_values_set conjI [OF 1 conjI [OF exist_check_values_set
          conjI [OF 2 conjI [OF variant_check_values_set conjI [OF 3 5]]]]]])
qed

theorem findings_iff_false_in_value_witness:
  "derefed_values ex_deref_checks ex_eval_expr_at () =
     [(''t1'', DerefCheck ''p'', {|False|}), (''t2'', DerefCheck ''p'', {|True, False|}),
      (''t3'', DerefCheck ''p'', {|True|})] \<and>
   diagnostics (find_null_derefs ex_deref_checks ex_eval_expr_at ()) =
     [(''t1'', ''p'', True), (''t2'', ''p'', False)] \<and>
   diagnostics (find_invalid_accesses ex_deref_checks ex_eval_expr_at ()) =
     [(''t1'', DerefCheck ''p'', True), (''t2'', DerefCheck ''p'', False)] \<and>
   variant_check_values ex_check_cfg ex_field_check ex_ancestors ex_eval_at =
     [({|ex_tagged, ex_start|}, ''field'', {|False|}),
      ({|ex_tagged|}, ''field'', {|True, False|}),
      ({|ex_tagged, ex_start|}, ''field'', {|True|})] \<and>
   infeasibles (check_variants () ex_check_cfg ex_field_check ex_ancestors ex_eval_at False) =
     [({|ex_tagged, ex_start|}, ''field'', True), ({|ex_tagged|}, ''field'', False)] \<and>
   fcard {|True, False|} = 2"
proof -
  have d: "derefed_values ex_deref_checks ex_eval_expr_at () =
     [(''t1'', DerefCheck ''p'', {|False|}), (''t2'', DerefCheck ''p'', {|True, False|}),
      (''t3'', DerefCheck ''p'', {|True|})]"
    by (simp add: derefed_values_def ex_deref_checks_def ex_eval_expr_at_def)
  have x: "exist_check_values ex_deref_checks ex_eval_expr_at () =
     [(''t1'', DerefCheck ''p'', {|False|}), (''t2'', DerefCheck ''p'', {|True, False|}),
      (''t3'', DerefCheck ''p'', {|True|})]"
    by (simp add: exist_check_values_def ex_deref_checks_def ex_eval_expr_at_def)
  have v: "variant_check_values ex_check_cfg ex_field_check ex_ancestors ex_eval_at =
     [({|ex_tagged, ex_start|}, ''field'', {|False|}),
      ({|ex_tagged|}, ''field'', {|True, False|}),
      ({|ex_tagged, ex_start|}, ''field'', {|True|})]"
    by (simp add: variant_check_values_def ex_check_cfg_def ex_field_check_def ex_ancestors_def
        ex_eval_at_def ex_tagged_def ex_untagged_def ex_start_def ex_x_def ex_eq_def ex_lit_def)
  have ne: "{|True, False|} \<noteq> {|False|}"
  proof
    assume "{|True, False|} = {|False|}"
    moreover have "True |\<in>| {|True, False|}" by simp
    ultimately have "True |\<in>| {|False|}" by simp
    then show False by simp
  qed
  have "card {True, False} = 2" by simp
  then have c: "fcard {|True, False|} = 2" by (simp add: fcard.rep_eq)
  note inst = findings_iff_false_in_value [where c = ex_deref_checks and ev = ex_eval_expr_at
      and a = "()" and c' = ex_deref_checks and ev' = ex_eval_expr_at and a' = "()"
      and an = "()" and cfg = ex_check_cfg and exist_check_of = ex_field_check
      and ancestors = ex_ancestors and eval_at = ex_eval_at and FALSE = False]
  from inst [THEN conjunct2, THEN conjunct1]
  have r1: "diagnostics (find_null_derefs ex_deref_checks ex_eval_expr_at ()) =
     [(''t1'', ''p'', True), (''t2'', ''p'', False)]"
    unfolding d using ne by simp
  from inst [THEN conjunct2, THEN conjunct2, THEN conjunct2, THEN conjunct1]
  have r2: "diagnostics (find_invalid_accesses ex_deref_checks ex_eval_expr_at ()) =
     [(''t1'', DerefCheck ''p'', True), (''t2'', DerefCheck ''p'', False)]"
    unfolding x using ne by simp
  from inst [THEN conjunct2, THEN conjunct2, THEN conjunct2, THEN conjunct2, THEN conjunct2,
      THEN conjunct1]
  have r3: "infeasibles (check_variants () ex_check_cfg ex_field_check ex_ancestors ex_eval_at False) =
     [({|ex_tagged, ex_start|}, ''field'', True), ({|ex_tagged|}, ''field'', False)]"
    unfolding v using ne by simp
  from d r1 r2 v r3 c show ?thesis by (intro conjI)
qed
end
